theory Spec2Isabelle
  imports Main "HOL-Library.Word"
begin

unbundle bit_operations_syntax

section \<open>Bytes and strings\<close>

text \<open>
  A Go \<^verbatim>\<open>byte\<close> is an 8-bit word; a Go \<^verbatim>\<open>string\<close> and a \<^verbatim>\<open>[]byte\<close> are both
  sequences of bytes. String literals of the source are written as Isabelle strings and
  turned into bytes by \<open>bytes_of\<close>.
\<close>

type_synonym byte = "8 word"

definition bytes_of :: "string \<Rightarrow> byte list" where
  "bytes_of s = map of_char s"

section \<open>Status lines: \<^verbatim>\<open>escape\<close> and \<^verbatim>\<open>formatLine\<close>\<close>

text \<open>One lower-case hexadecimal digit, as \<^verbatim>\<open>%x\<close> prints it.\<close>

definition hexdigit :: "byte \<Rightarrow> byte" where
  "hexdigit d = (if d < 10 then 0x30 + d else 0x57 + d)"

text \<open>\<^verbatim>\<open>fmt.Fprintf(&buf, "\\x%02x", b)\<close>: backslash, x, two hexadecimal digits.\<close>

definition sprintf_x02 :: "byte \<Rightarrow> byte list" where
  "sprintf_x02 b = [0x5C, 0x78, hexdigit (drop_bit 4 b), hexdigit (b AND 0x0F)]"

text \<open>
  The loop of \<^verbatim>\<open>escape\<close> over the bytes of \<open>s\<close>; \<open>buf\<close> is the
  \<^verbatim>\<open>bytes.Buffer\<close> it appends to.
\<close>

fun escape_loop :: "byte list \<Rightarrow> byte list \<Rightarrow> byte list" where
  "escape_loop buf [] = buf"
| "escape_loop buf (b # s) =
     (if b = 0x0A then escape_loop (buf @ [0x5C, 0x6E]) s
      else if b = 0x5C then escape_loop (buf @ [0x5C, 0x5C]) s
      else if 0 < b \<and> b < 128 then escape_loop (buf @ [b]) s
      else escape_loop (buf @ sprintf_x02 b) s)"

definition escape :: "byte list \<Rightarrow> byte list" where
  "escape s = escape_loop [] s"

fun formatLine_loop :: "byte list \<Rightarrow> byte list list \<Rightarrow> byte list" where
  "formatLine_loop buf [] = buf"
| "formatLine_loop buf (x # v) = formatLine_loop (buf @ ([0x20] @ escape x)) v"

definition formatLine :: "byte list \<Rightarrow> byte list list \<Rightarrow> byte list" where
  "formatLine keyword v = formatLine_loop keyword v"

text \<open>A byte that may stand in a status line: 1..127 and not a newline.\<close>

definition line_byte :: "byte \<Rightarrow> bool" where
  "line_byte c \<longleftrightarrow> 0 < c \<and> c < 128 \<and> c \<noteq> 0x0A"

section \<open>Errors\<close>

text \<open>
  A Go \<^verbatim>\<open>error\<close> value. \<open>ErrorString\<close> is what \<^verbatim>\<open>errors.New\<close> builds: a message and
  nothing else. \<open>EOF\<close> and \<open>ErrUnexpectedEOF\<close> are the sentinels of package \<^verbatim>\<open>io\<close>;
  \<open>ErrTimeout\<close> is the error of an expired deadline and \<open>SysError\<close> any other error of the
  operating system, by its number.
\<close>

datatype go_error =
    ErrorString string
  | EOF
  | ErrUnexpectedEOF
  | ErrTimeout
  | SysError nat

section \<open>Readers\<close>

text \<open>
  What an \<^verbatim>\<open>io.Reader\<close> (a file, a socket, \<^verbatim>\<open>rand.Reader\<close>) will deliver: the chunks
  of bytes that successive \<^verbatim>\<open>Read\<close> calls find, and the error that \<^verbatim>\<open>Read\<close> returns once
  they are used up (\<open>EOF\<close> for a regular file). One call returns bytes of one chunk only,
  at most as many as asked for; it never returns zero bytes without an error, so empty
  chunks are passed over.
\<close>

record source =
  chunks :: "byte list list"
  final_err :: go_error

fun next_chunk :: "nat \<Rightarrow> byte list list \<Rightarrow> (byte list \<times> byte list list) option" where
  "next_chunk n [] = None"
| "next_chunk n (c # cs) =
     (if c = [] then next_chunk n cs
      else Some (take n c, if length c \<le> n then cs else drop n c # cs))"

definition src_Read :: "nat \<Rightarrow> 'a source_scheme \<Rightarrow> (byte list \<times> go_error option) \<times> 'a source_scheme" where
  "src_Read n src =
     (if n = 0 then (([], None), src)
      else case next_chunk n (chunks src) of
             None \<Rightarrow> (([], Some (final_err src)), src\<lparr>chunks := []\<rparr>)
           | Some (bs, cs) \<Rightarrow> ((bs, None), src\<lparr>chunks := cs\<rparr>))"

text \<open>The bytes a reader has not delivered yet, and a measure of them for the loops.\<close>

definition pending :: "'a source_scheme \<Rightarrow> byte list" where
  "pending src = concat (chunks src)"

fun chunks_size :: "byte list list \<Rightarrow> nat" where
  "chunks_size [] = 0"
| "chunks_size (c # cs) = Suc (length c + chunks_size cs)"

lemma next_chunk_size:
  "next_chunk n cs = Some (bs, cs') \<Longrightarrow> 0 < n \<Longrightarrow> chunks_size cs' < chunks_size cs"
  by (induction cs) (auto split: if_splits)

lemma src_Read_size:
  "src_Read n src = ((bs, None), src') \<Longrightarrow> 0 < n \<Longrightarrow> chunks_size (chunks src') < chunks_size (chunks src)"
  by (auto simp: src_Read_def split: option.splits dest: next_chunk_size)

text \<open>
  \<^verbatim>\<open>io.ReadAtLeast\<close>, with \<open>got\<close> the bytes read so far (\<open>n\<close> is their number):
  \<^verbatim>\<open>for n < min && err == nil { nn, err = r.Read(buf[n:]); n += nn }\<close>, then
  \<^verbatim>\<open>if n >= min { err = nil } else if n > 0 && err == EOF { err = ErrUnexpectedEOF }\<close>.
\<close>

definition ReadAtLeast_result :: "nat \<Rightarrow> byte list \<Rightarrow> go_error option \<Rightarrow> byte list \<times> go_error option" where
  "ReadAtLeast_result minimum got err =
     (if length got \<ge> minimum then (got, None)
      else if 0 < length got \<and> err = Some EOF then (got, Some ErrUnexpectedEOF)
      else (got, err))"

function src_ReadAtLeast :: "'a source_scheme \<Rightarrow> nat \<Rightarrow> byte list \<Rightarrow> (byte list \<times> go_error option) \<times> 'a source_scheme" where
  "src_ReadAtLeast src minimum got =
     (if length got < minimum then
        (case src_Read (minimum - length got) src of
           ((bs, None), src') \<Rightarrow> src_ReadAtLeast src' minimum (got @ bs)
         | ((bs, Some e), src') \<Rightarrow> (ReadAtLeast_result minimum (got @ bs) (Some e), src'))
      else (ReadAtLeast_result minimum got None, src))"
  by pat_completeness auto
termination
  by (relation "measure (\<lambda>(src, minimum, got). chunks_size (chunks src))") (auto dest: src_Read_size[OF sym])

declare src_ReadAtLeast.simps [simp del]

text \<open>
  \<^verbatim>\<open>io.ReadFull(r, buf)\<close> on a fresh buffer of \<open>n\<close> zero bytes: the buffer after the call
  (the bytes read, then the zeros left) and the error.
\<close>

definition src_ReadFull :: "'a source_scheme \<Rightarrow> nat \<Rightarrow> (byte list \<times> go_error option) \<times> 'a source_scheme" where
  "src_ReadFull src n =
     (case src_ReadAtLeast src n [] of
        ((got, err), src') \<Rightarrow> ((got @ replicate (n - length got) 0, err), src'))"

section \<open>Connections\<close>

type_synonym Time = int

text \<open>
  A \<^verbatim>\<open>*net.TCPConn\<close>: what the peer will send (the fields of \<open>source\<close>), the bytes written
  to it so far, how many more bytes it accepts before a write fails (\<open>None\<close>: any number)
  and with which error, the deadline in force (\<open>None\<close>: no deadline), whether it has been
  closed, and for every \<^verbatim>\<open>Read\<close> and \<^verbatim>\<open>Write\<close> call made on it the deadline in force
  at the call.
\<close>

record conn = source +
  written :: "byte list"
  wr_room :: "nat option"
  wr_err :: go_error
  deadline :: "Time option"
  closed :: bool
  io_log :: "Time option list"

definition conn_Read :: "nat \<Rightarrow> conn \<Rightarrow> (byte list \<times> go_error option) \<times> conn" where
  "conn_Read n s =
     (case src_Read n s of (res, s') \<Rightarrow> (res, s'\<lparr>io_log := io_log s @ [deadline s]\<rparr>))"

definition conn_Write :: "byte list \<Rightarrow> conn \<Rightarrow> go_error option \<times> conn" where
  "conn_Write bs s =
     (let s1 = s\<lparr>io_log := io_log s @ [deadline s]\<rparr> in
      case wr_room s of
        None \<Rightarrow> (None, s1\<lparr>written := written s @ bs\<rparr>)
      | Some k \<Rightarrow>
          if length bs \<le> k
          then (None, s1\<lparr>written := written s @ bs, wr_room := Some (k - length bs)\<rparr>)
          else (Some (wr_err s), s1\<lparr>written := written s @ take k bs, wr_room := Some 0\<rparr>))"

definition conn_SetDeadline :: "Time option \<Rightarrow> conn \<Rightarrow> conn" where
  "conn_SetDeadline t s = s\<lparr>deadline := t\<rparr>"

definition conn_Close :: "conn \<Rightarrow> conn" where
  "conn_Close s = s\<lparr>closed := True\<rparr>"

text \<open>\<open>can_write s n\<close>: the connection accepts \<open>n\<close> more bytes without a write error.\<close>

definition can_write :: "conn \<Rightarrow> nat \<Rightarrow> bool" where
  "can_write s n = (case wr_room s of None \<Rightarrow> True | Some k \<Rightarrow> n \<le> k)"

text \<open>
  \<open>io_only s s'\<close>: \<open>s'\<close> is \<open>s\<close> after reads and writes only. Its deadline is the one of
  \<open>s\<close>, it is open if \<open>s\<close> is, and every call made in between was made under that
  deadline.
\<close>

definition io_only :: "conn \<Rightarrow> conn \<Rightarrow> bool" where
  "io_only s s' \<longleftrightarrow>
     final_err s' = final_err s \<and> wr_err s' = wr_err s \<and>
     deadline s' = deadline s \<and> closed s' = closed s \<and>
     (\<exists>k. io_log s' = io_log s @ replicate k (deadline s))"

text \<open>\<open>reads_only s s'\<close>: \<open>s'\<close> is \<open>s\<close> after reads only; nothing was written in between.\<close>

definition reads_only :: "conn \<Rightarrow> conn \<Rightarrow> bool" where
  "reads_only s s' \<longleftrightarrow>
     (\<exists>cs k. s' = s\<lparr>chunks := cs, io_log := io_log s @ replicate k (deadline s)\<rparr>)"

text \<open>
  A socket that has just been opened: the peer will send \<open>cs\<close> and then \<open>e\<close> is what a
  read finds; nothing is written yet, writes do not fail, no deadline is set.
\<close>

definition new_conn :: "byte list list \<Rightarrow> go_error \<Rightarrow> conn" where
  "new_conn cs e =
     \<lparr>chunks = cs, final_err = e, written = [], wr_room = None, wr_err = SysError 32,
      deadline = None, closed = False, io_log = []\<rparr>"

lemma conn_Read_size:
  "conn_Read n s = ((bs, None), s') \<Longrightarrow> 0 < n \<Longrightarrow> chunks_size (chunks s') < chunks_size (chunks s)"
  by (auto simp: conn_Read_def split: prod.splits dest: src_Read_size)

function conn_ReadAtLeast :: "conn \<Rightarrow> nat \<Rightarrow> byte list \<Rightarrow> (byte list \<times> go_error option) \<times> conn" where
  "conn_ReadAtLeast s minimum got =
     (if length got < minimum then
        (case conn_Read (minimum - length got) s of
           ((bs, None), s') \<Rightarrow> conn_ReadAtLeast s' minimum (got @ bs)
         | ((bs, Some e), s') \<Rightarrow> (ReadAtLeast_result minimum (got @ bs) (Some e), s'))
      else (ReadAtLeast_result minimum got None, s))"
  by pat_completeness auto
termination
  by (relation "measure (\<lambda>(s, minimum, got). chunks_size (chunks s))") (auto dest: conn_Read_size[OF sym])

declare conn_ReadAtLeast.simps [simp del]

definition conn_ReadFull :: "conn \<Rightarrow> nat \<Rightarrow> (byte list \<times> go_error option) \<times> conn" where
  "conn_ReadFull s n =
     (case conn_ReadAtLeast s n [] of
        ((got, err), s') \<Rightarrow> ((got @ replicate (n - length got) 0, err), s'))"

section \<open>Buffered readers\<close>

text \<open>
  A \<^verbatim>\<open>*bufio.Reader\<close> on a connection: the connection and the bytes read from it that the
  caller has not consumed yet (\<^verbatim>\<open>b.buf[b.r:b.w]\<close>). The buffer has room for
  \<open>defaultBufSize\<close> bytes. An error of the connection comes with no bytes, so the reader
  hands it on in the call that meets it and holds no pending error between calls.
\<close>

record bufio_Reader =
  rd :: conn
  bbuf :: "byte list"

definition defaultBufSize :: nat where
  "defaultBufSize = 4096"

definition bufio_NewReader :: "conn \<Rightarrow> bufio_Reader" where
  "bufio_NewReader s = \<lparr>rd = s, bbuf = []\<rparr>"

definition bufio_fill :: "bufio_Reader \<Rightarrow> go_error option \<times> bufio_Reader" where
  "bufio_fill b =
     (case conn_Read (defaultBufSize - length (bbuf b)) (rd b) of
        ((bs, err), s') \<Rightarrow> (err, b\<lparr>rd := s', bbuf := bbuf b @ bs\<rparr>))"

definition bufio_Buffered :: "bufio_Reader \<Rightarrow> nat" where
  "bufio_Buffered b = length (bbuf b)"

text \<open>The bytes a buffered reader has still to hand out: its buffer, then the connection's.\<close>

definition bufio_pending :: "bufio_Reader \<Rightarrow> byte list" where
  "bufio_pending b = bbuf b @ pending (rd b)"

lemma bufio_fill_size:
  "bufio_fill b = (None, b') \<Longrightarrow> bbuf b = [] \<Longrightarrow> chunks_size (chunks (rd b')) < chunks_size (chunks (rd b))"
  by (auto simp: bufio_fill_def defaultBufSize_def split: prod.splits dest: conn_Read_size)

text \<open>
  \<^verbatim>\<open>ReadByte\<close>: \<^verbatim>\<open>for b.r == b.w { if b.err != nil { return 0, b.readErr() }; b.fill() }\<close>,
  then the first buffered byte.
\<close>

function bufio_ReadByte :: "bufio_Reader \<Rightarrow> (go_error + byte) \<times> bufio_Reader" where
  "bufio_ReadByte b =
     (case bbuf b of
        c # rest \<Rightarrow> (Inr c, b\<lparr>bbuf := rest\<rparr>)
      | [] \<Rightarrow>
          (case bufio_fill b of
             (Some e, b') \<Rightarrow> (Inl e, b')
           | (None, b') \<Rightarrow> bufio_ReadByte b'))"
  by pat_completeness auto
termination
  by (relation "measure (\<lambda>b. chunks_size (chunks (rd b)))") (auto dest: bufio_fill_size[OF sym])

declare bufio_ReadByte.simps [simp del]

text \<open>
  \<^verbatim>\<open>Read(p)\<close> with \<open>n = len(p)\<close>: from the buffer when it holds bytes; otherwise one read
  of the connection, straight into \<open>p\<close> when \<open>p\<close> is at least as large as the buffer.
\<close>

definition bufio_Read :: "nat \<Rightarrow> bufio_Reader \<Rightarrow> (byte list \<times> go_error option) \<times> bufio_Reader" where
  "bufio_Read n b =
     (if n = 0 then (([], None), b)
      else if bbuf b = [] then
        (if defaultBufSize \<le> n then
           (case conn_Read n (rd b) of (res, s') \<Rightarrow> (res, b\<lparr>rd := s'\<rparr>))
         else
           (case bufio_fill b of
              (Some e, b') \<Rightarrow> (([], Some e), b')
            | (None, b') \<Rightarrow>
                if bbuf b' = [] then (([], None), b')
                else ((take n (bbuf b'), None), b'\<lparr>bbuf := drop n (bbuf b')\<rparr>)))
      else ((take n (bbuf b), None), b\<lparr>bbuf := drop n (bbuf b)\<rparr>))"

definition bufio_size :: "bufio_Reader \<Rightarrow> nat" where
  "bufio_size b = chunks_size (chunks (rd b)) + length (bbuf b)"

lemma next_chunk_bytes:
  "next_chunk n cs = Some (bs, cs') \<Longrightarrow> 0 < n \<Longrightarrow>
     0 < length bs \<and> chunks_size cs' + length bs \<le> chunks_size cs"
  by (induction cs) (auto split: if_splits)

lemma conn_Read_bytes:
  "conn_Read n s = ((bs, None), s') \<Longrightarrow> 0 < n \<Longrightarrow>
     0 < length bs \<and> chunks_size (chunks s') + length bs \<le> chunks_size (chunks s)"
  by (auto simp: conn_Read_def src_Read_def split: prod.splits option.splits dest: next_chunk_bytes)

lemma bufio_Read_size:
  assumes "bufio_Read n b = ((bs, None), b')" and "0 < n"
  shows "bufio_size b' < bufio_size b"
proof (cases "bbuf b = []")
  case False
  then have "b' = b\<lparr>bbuf := drop n (bbuf b)\<rparr>"
    using assms by (simp add: bufio_Read_def)
  with False assms(2) show ?thesis by (simp add: bufio_size_def)
next
  case True
  show ?thesis
  proof (cases "defaultBufSize \<le> n")
    case big: True
    obtain s' where r: "conn_Read n (rd b) = ((bs, None), s')" and b': "b' = b\<lparr>rd := s'\<rparr>"
      using assms True big by (auto simp: bufio_Read_def split: prod.splits)
    from conn_Read_size[OF r assms(2)] b' True show ?thesis by (simp add: bufio_size_def)
  next
    case small: False
    obtain cs s' where r: "conn_Read defaultBufSize (rd b) = ((cs, None), s')"
      and b': "b' = b\<lparr>rd := s', bbuf := drop n cs\<rparr>"
      using assms True small
      by (auto simp: bufio_Read_def bufio_fill_def split: prod.splits option.splits if_splits)
    have "0 < defaultBufSize" by (simp add: defaultBufSize_def)
    from conn_Read_bytes[OF r this]
    have "0 < length cs" and "chunks_size (chunks s') + length cs \<le> chunks_size (chunks (rd b))"
      by simp_all
    then have "chunks_size (chunks s') + (length cs - n) < chunks_size (chunks (rd b))"
      using assms(2) by arith
    with b' show ?thesis by (simp add: bufio_size_def)
  qed
qed

function bufio_ReadAtLeast :: "bufio_Reader \<Rightarrow> nat \<Rightarrow> byte list \<Rightarrow> (byte list \<times> go_error option) \<times> bufio_Reader" where
  "bufio_ReadAtLeast b minimum got =
     (if length got < minimum then
        (case bufio_Read (minimum - length got) b of
           ((bs, None), b') \<Rightarrow> bufio_ReadAtLeast b' minimum (got @ bs)
         | ((bs, Some e), b') \<Rightarrow> (ReadAtLeast_result minimum (got @ bs) (Some e), b'))
      else (ReadAtLeast_result minimum got None, b))"
  by pat_completeness auto
termination
  by (relation "measure (\<lambda>(b, minimum, got). bufio_size b)") (auto dest: bufio_Read_size[OF sym])

declare bufio_ReadAtLeast.simps [simp del]

definition bufio_ReadFull :: "bufio_Reader \<Rightarrow> nat \<Rightarrow> (byte list \<times> go_error option) \<times> bufio_Reader" where
  "bufio_ReadFull b n =
     (case bufio_ReadAtLeast b n [] of
        ((got, err), b') \<Rightarrow> ((got @ replicate (n - length got) 0, err), b'))"

section \<open>The auth cookie file\<close>

text \<open>\<^verbatim>\<open>os.Open\<close>: a file name gives an error or a file to read from its start.\<close>

type_synonym filesystem = "string \<Rightarrow> go_error + source"

definition authCookieHeader :: "byte list" where
  "authCookieHeader = bytes_of ''! Extended ORPort Auth Cookie !'' @ [0x0A]"

definition readAuthCookieFile :: "filesystem \<Rightarrow> string \<Rightarrow> byte list \<times> go_error option" where
  "readAuthCookieFile fs filename =
     (let cookie0 = replicate 32 0 in
      case fs filename of
        Inl err \<Rightarrow> (cookie0, Some err)
      | Inr f \<Rightarrow>
          (case src_ReadFull f 32 of
             ((header, Some err), f1) \<Rightarrow> (cookie0, Some err)
           | ((header, None), f1) \<Rightarrow>
               (case src_ReadFull f1 32 of
                  ((cookie, Some err), f2) \<Rightarrow> (cookie, Some err)
                | ((cookie, None), f2) \<Rightarrow>
                    (case src_Read 1 f2 of
                       ((bs, err), f3) \<Rightarrow>
                         if length bs \<noteq> 0 then
                           (cookie, Some (ErrorString ''file is longer than 64 bytes''))
                         else if err \<noteq> Some EOF then
                           (cookie, Some (ErrorString ''did not find EOF at end of file''))
                         else if header \<noteq> authCookieHeader then
                           (cookie, Some (ErrorString ''missing auth cookie header''))
                         else (cookie, None)))))"

section \<open>Server information\<close>

record TCPAddr =
  IP :: "byte list"
  Port :: nat

record BindAddr =
  MethodName :: "byte list"
  Addr :: "TCPAddr option"

record ServerInfo =
  BindAddrs :: "BindAddr list"
  OrAddr :: "TCPAddr option"
  ExtendedOrAddr :: "TCPAddr option"
  AuthCookie :: "byte list"

section \<open>Hashes\<close>

text \<open>
  HMAC-SHA256 itself belongs to the Go library: it is a parameter \<open>H\<close>, from a key and
  a message to a digest. An \<^verbatim>\<open>hmac.New(sha256.New, key)\<close> object collects the message
  written to it; \<^verbatim>\<open>Sum(b)\<close> appends the digest to \<open>b\<close>.
\<close>

type_synonym mac = "byte list \<Rightarrow> byte list \<Rightarrow> byte list"

record hmac_hash =
  hkey :: "byte list"
  hmsg :: "byte list"

definition hmac_New :: "byte list \<Rightarrow> hmac_hash" where
  "hmac_New key = \<lparr>hkey = key, hmsg = []\<rparr>"

definition hash_Write :: "hmac_hash \<Rightarrow> byte list \<Rightarrow> hmac_hash" where
  "hash_Write h p = h\<lparr>hmsg := hmsg h @ p\<rparr>"

definition hash_Sum :: "mac \<Rightarrow> hmac_hash \<Rightarrow> byte list \<Rightarrow> byte list" where
  "hash_Sum H h b = b @ H (hkey h) (hmsg h)"

definition computeServerHash :: "mac \<Rightarrow> ServerInfo \<Rightarrow> byte list \<Rightarrow> byte list \<Rightarrow> byte list" where
  "computeServerHash H info clientNonce serverNonce =
     (let h = hmac_New (AuthCookie info);
          h = hash_Write h (bytes_of ''ExtORPort authentication server-to-client hash'');
          h = hash_Write h clientNonce;
          h = hash_Write h serverNonce
      in hash_Sum H h [])"

definition computeClientHash :: "mac \<Rightarrow> ServerInfo \<Rightarrow> byte list \<Rightarrow> byte list \<Rightarrow> byte list" where
  "computeClientHash H info clientNonce serverNonce =
     (let h = hmac_New (AuthCookie info);
          h = hash_Write h (bytes_of ''ExtORPort authentication client-to-server hash'');
          h = hash_Write h clientNonce;
          h = hash_Write h serverNonce
      in hash_Sum H h [])"

text \<open>
  \<^verbatim>\<open>subtle.ConstantTimeByteEq\<close> is \<^verbatim>\<open>int((uint32(x^y) - 1) >> 31)\<close>, and
  \<^verbatim>\<open>subtle.ConstantTimeCompare\<close> ORs the XOR of every pair of bytes into one byte, with
  no exit before the end, and compares that byte with 0.
\<close>

definition ConstantTimeByteEq :: "byte \<Rightarrow> byte \<Rightarrow> int" where
  "ConstantTimeByteEq x y = uint (drop_bit 31 ((ucast (x XOR y) :: 32 word) - 1))"

fun ConstantTimeCompare_loop :: "byte \<Rightarrow> byte list \<Rightarrow> byte list \<Rightarrow> byte" where
  "ConstantTimeCompare_loop v (a # x) (b # y) = ConstantTimeCompare_loop (v OR (a XOR b)) x y"
| "ConstantTimeCompare_loop v _ _ = v"

definition ConstantTimeCompare :: "byte list \<Rightarrow> byte list \<Rightarrow> int" where
  "ConstantTimeCompare x y =
     (if length x \<noteq> length y then 0
      else ConstantTimeByteEq (ConstantTimeCompare_loop 0 x y) 0)"

section \<open>Extended OR port authentication\<close>

text \<open>\<^verbatim>\<open>%d\<close> of a number that is not negative.\<close>

fun sprintf_d :: "nat \<Rightarrow> string" where
  "sprintf_d n =
     (if n < 10 then [''0123456789'' ! n]
      else sprintf_d (n div 10) @ [''0123456789'' ! (n mod 10)])"

declare sprintf_d.simps [simp del]

text \<open>
  The loop that reads the auth types:
  \<^verbatim>\<open>for count = 0; count < 256; count++\<close>, one \<^verbatim>\<open>ReadByte\<close> each, left at a zero byte.
  It gives the final \<open>count\<close> and the array \<open>authTypes\<close>.
\<close>

function readAuthTypes_loop ::
  "nat \<Rightarrow> (byte \<Rightarrow> bool) \<Rightarrow> bufio_Reader \<Rightarrow> (go_error + nat \<times> (byte \<Rightarrow> bool)) \<times> bufio_Reader" where
  "readAuthTypes_loop count authTypes r =
     (if count < 256 then
        (case bufio_ReadByte r of
           (Inl err, r') \<Rightarrow> (Inl err, r')
         | (Inr b, r') \<Rightarrow>
             if b = 0 then (Inr (count, authTypes), r')
             else readAuthTypes_loop (count + 1) (authTypes(b := True)) r')
      else (Inr (count, authTypes), r))"
  by pat_completeness auto
termination
  by (relation "measure (\<lambda>(count, authTypes, r). 256 - count)") auto

declare readAuthTypes_loop.simps [simp del]

definition extOrPortAuthenticate ::
  "mac \<Rightarrow> source \<Rightarrow> conn \<Rightarrow> ServerInfo \<Rightarrow> go_error option \<times> conn \<times> source" where
  "extOrPortAuthenticate H rand_Reader s info =
     (let r = bufio_NewReader s in
      case readAuthTypes_loop 0 (\<lambda>_. False) r of
        (Inl err, r) \<Rightarrow> (Some err, rd r, rand_Reader)
      | (Inr (count, authTypes), r) \<Rightarrow>
      if count \<ge> 256 then
        (Some (ErrorString (''read 256 auth types without seeing '' @ [CHR 0x5C] @ ''x00'')),
         rd r, rand_Reader)
      else if \<not> authTypes 1 then
        (Some (ErrorString ''server didn't offer auth type 1''), rd r, rand_Reader)
      else
      case conn_Write [1] (rd r) of
        (Some err, s) \<Rightarrow> (Some err, s, rand_Reader)
      | (None, s) \<Rightarrow>
      let r = r\<lparr>rd := s\<rparr> in
      case src_ReadFull rand_Reader 32 of
        ((clientNonce, Some err), rand_Reader) \<Rightarrow> (Some err, rd r, rand_Reader)
      | ((clientNonce, None), rand_Reader) \<Rightarrow>
      case conn_Write clientNonce (rd r) of
        (Some err, s) \<Rightarrow> (Some err, s, rand_Reader)
      | (None, s) \<Rightarrow>
      let r = r\<lparr>rd := s\<rparr> in
      case bufio_ReadFull r 32 of
        ((serverHash, Some err), r) \<Rightarrow> (Some err, rd r, rand_Reader)
      | ((serverHash, None), r) \<Rightarrow>
      case bufio_ReadFull r 32 of
        ((serverNonce, Some err), r) \<Rightarrow> (Some err, rd r, rand_Reader)
      | ((serverNonce, None), r) \<Rightarrow>
      let expectedServerHash = computeServerHash H info clientNonce serverNonce in
      if ConstantTimeCompare serverHash expectedServerHash \<noteq> 1 then
        (Some (ErrorString ''mismatch in server hash''), rd r, rand_Reader)
      else
      let clientHash = computeClientHash H info clientNonce serverNonce in
      case conn_Write clientHash (rd r) of
        (Some err, s) \<Rightarrow> (Some err, s, rand_Reader)
      | (None, s) \<Rightarrow>
      let r = r\<lparr>rd := s\<rparr> in
      case bufio_ReadFull r 1 of
        ((status, Some err), r) \<Rightarrow> (Some err, rd r, rand_Reader)
      | ((status, None), r) \<Rightarrow>
      if status ! 0 \<noteq> 1 then
        (Some (ErrorString ''server rejected authentication''), rd r, rand_Reader)
      else if bufio_Buffered r \<noteq> 0 then
        (Some (ErrorString (sprintf_d (bufio_Buffered r) @
            '' bytes left after extended OR port authentication'')), rd r, rand_Reader)
      else (None, rd r, rand_Reader))"

section \<open>Extended OR port commands\<close>

type_synonym uint16 = "16 word"

definition extOrCmdDone :: uint16 where "extOrCmdDone = 0x0000"
definition extOrCmdUserAddr :: uint16 where "extOrCmdUserAddr = 0x0001"
definition extOrCmdTransport :: uint16 where "extOrCmdTransport = 0x0002"
definition extOrCmdOkay :: uint16 where "extOrCmdOkay = 0x1000"
definition extOrCmdDeny :: uint16 where "extOrCmdDeny = 0x1001"

text \<open>\<^verbatim>\<open>binary.BigEndian\<close> on a \<^verbatim>\<open>uint16\<close>: writing it as two bytes and reading it back.\<close>

definition PutUint16 :: "uint16 \<Rightarrow> byte list" where
  "PutUint16 v = [ucast (drop_bit 8 v), ucast v]"

definition Uint16 :: "byte list \<Rightarrow> uint16" where
  "Uint16 b = push_bit 8 (ucast (b ! 0)) OR ucast (b ! 1)"

text \<open>
  The wire layout of a command as the specification words it: two bytes of command id,
  big-endian, two bytes of body length, big-endian, then the body and nothing else.
\<close>

definition frame :: "uint16 \<Rightarrow> byte list \<Rightarrow> byte list" where
  "frame cmd body =
     [ucast (drop_bit 8 cmd), ucast cmd,
      ucast (drop_bit 8 (of_nat (length body) :: uint16)), ucast (of_nat (length body) :: uint16)]
     @ body"

definition extOrPortWriteCommand :: "conn \<Rightarrow> uint16 \<Rightarrow> byte list \<Rightarrow> go_error option \<times> conn" where
  "extOrPortWriteCommand s cmd body =
     (if length body > 65535 then
        (Some (ErrorString ''command exceeds maximum length of 65535''), s)
      else
        let buf = [];
            buf = buf @ PutUint16 cmd;
            buf = buf @ PutUint16 (of_nat (length body));
            buf = buf @ body
        in conn_Write buf s)"

text \<open>
  The \<^verbatim>\<open>net.Conn\<close> of the client that came in: the code asks it for its remote address
  only.
\<close>

record net_Conn =
  RemoteAddr :: "byte list"

definition extOrPortSendUserAddr :: "conn \<Rightarrow> net_Conn \<Rightarrow> go_error option \<times> conn" where
  "extOrPortSendUserAddr s conn = extOrPortWriteCommand s extOrCmdUserAddr (RemoteAddr conn)"

definition extOrPortSendTransport :: "conn \<Rightarrow> byte list \<Rightarrow> go_error option \<times> conn" where
  "extOrPortSendTransport s methodName = extOrPortWriteCommand s extOrCmdTransport methodName"

definition extOrPortSendDone :: "conn \<Rightarrow> go_error option \<times> conn" where
  "extOrPortSendDone s = extOrPortWriteCommand s extOrCmdDone []"

text \<open>
  The results are the named results \<^verbatim>\<open>(cmd, body, err)\<close> of the source: a bare
  \<^verbatim>\<open>return\<close> hands back what they hold at that point.
\<close>

definition extOrPortRecvCommand :: "conn \<Rightarrow> (uint16 \<times> byte list \<times> go_error option) \<times> conn" where
  "extOrPortRecvCommand s =
     (case conn_ReadFull s 4 of
        ((data, Some err), s) \<Rightarrow> ((0, [], Some err), s)
      | ((data, None), s) \<Rightarrow>
          let cmd = Uint16 (take 2 data);
              bodyLen = Uint16 (drop 2 data)
          in case conn_ReadFull s (unat bodyLen) of
               ((body, Some err), s) \<Rightarrow> ((cmd, body, Some err), s)
             | ((body, None), s) \<Rightarrow> ((cmd, body, None), s))"

text \<open>
  \<^verbatim>\<open>%04x\<close> of a \<^verbatim>\<open>uint16\<close>: four digits out of the digit table. Every index
  is below 16.
\<close>

definition hexchar :: "nat \<Rightarrow> char" where
  "hexchar d = ''0123456789abcdef'' ! d"

definition sprintf_04x :: "uint16 \<Rightarrow> string" where
  "sprintf_04x v =
     [hexchar (unat v div 4096 mod 16), hexchar (unat v div 256 mod 16),
      hexchar (unat v div 16 mod 16), hexchar (unat v mod 16)]"

definition extOrPortSetup :: "conn \<Rightarrow> net_Conn \<Rightarrow> byte list \<Rightarrow> go_error option \<times> conn" where
  "extOrPortSetup s conn methodName =
     (case extOrPortSendUserAddr s conn of
        (Some err, s) \<Rightarrow> (Some err, s)
      | (None, s) \<Rightarrow>
      case extOrPortSendTransport s methodName of
        (Some err, s) \<Rightarrow> (Some err, s)
      | (None, s) \<Rightarrow>
      case extOrPortSendDone s of
        (Some err, s) \<Rightarrow> (Some err, s)
      | (None, s) \<Rightarrow>
      case extOrPortRecvCommand s of
        ((cmd, body, Some err), s) \<Rightarrow> (Some err, s)
      | ((cmd, body, None), s) \<Rightarrow>
      if cmd = extOrCmdDeny then
        (Some (ErrorString ''server returned DENY after our USERADDR and DONE''), s)
      else if cmd \<noteq> extOrCmdOkay then
        (Some (ErrorString (''server returned unknown command 0x'' @ sprintf_04x cmd @
            '' after our USERADDR and DONE'')), s)
      else (None, s))"

section \<open>Connecting to the OR port\<close>

text \<open>
  \<^verbatim>\<open>net.DialTCP\<close>: the network says, for an address, whether a connection opens and what
  the new socket will do. A nil address is refused.
\<close>

type_synonym network = "TCPAddr \<Rightarrow> go_error + conn"

definition net_DialTCP :: "network \<Rightarrow> TCPAddr option \<Rightarrow> go_error + conn" where
  "net_DialTCP nw raddr =
     (case raddr of None \<Rightarrow> Inl (ErrorString ''missing address'') | Some a \<Rightarrow> nw a)"

definition Second :: Time where
  "Second = 1000000000"

text \<open>
  \<open>ConnectOr\<close> gives the pair the source returns, and beside it the socket it dialed, as
  it left it (the source returns nil for the socket when it fails), and the random
  source after the call. \<open>now\<close> is \<^verbatim>\<open>time.Now()\<close>.
\<close>

definition ConnectOr ::
  "mac \<Rightarrow> network \<Rightarrow> Time \<Rightarrow> source \<Rightarrow> ServerInfo \<Rightarrow> net_Conn \<Rightarrow> byte list \<Rightarrow>
     (conn option \<times> go_error option) \<times> conn option \<times> source" where
  "ConnectOr H nw now rand_Reader info conn methodName =
     (if ExtendedOrAddr info = None then
        (case net_DialTCP nw (OrAddr info) of
           Inl err \<Rightarrow> ((None, Some err), None, rand_Reader)
         | Inr s \<Rightarrow> ((Some s, None), Some s, rand_Reader))
      else
      case net_DialTCP nw (ExtendedOrAddr info) of
        Inl err \<Rightarrow> ((None, Some err), None, rand_Reader)
      | Inr s \<Rightarrow>
      let s = conn_SetDeadline (Some (now + 5 * Second)) s in
      case extOrPortAuthenticate H rand_Reader s info of
        (Some err, s, rand_Reader) \<Rightarrow> ((None, Some err), Some (conn_Close s), rand_Reader)
      | (None, s, rand_Reader) \<Rightarrow>
      case extOrPortSetup s conn methodName of
        (Some err, s) \<Rightarrow> ((None, Some err), Some (conn_Close s), rand_Reader)
      | (None, s) \<Rightarrow>
      let s = conn_SetDeadline None s in
      ((Some s, None), Some s, rand_Reader))"

section \<open>Properties of the status lines\<close>

lemma hexdigit_line: "d < 16 \<Longrightarrow> line_byte (hexdigit d)"
  unfolding hexdigit_def line_byte_def
  by unat_arith auto

lemma hi_nibble: "drop_bit 4 (b::byte) < 16"
proof -
  have "unat (drop_bit 4 b) = drop_bit 4 (unat b)" by (rule unat_drop_bit_eq)
  also have "\<dots> = unat b div 2 ^ 4" by (rule drop_bit_eq_div)
  finally have "unat (drop_bit 4 b) = unat b div 16" by simp
  moreover have "unat b < 256" using unsigned_less[of b, where 'a=nat] by simp
  ultimately have "unat (drop_bit 4 b) < 16" by simp
  then show ?thesis by (simp add: word_less_nat_alt)
qed

lemma lo_nibble: "(b::byte) AND 0x0F < 16"
proof -
  have "b AND 0x0F \<le> 0x0F" by (rule word_and_le1)
  then show ?thesis by unat_arith
qed

lemma sprintf_x02_line: "list_all line_byte (sprintf_x02 b)"
  using hexdigit_line[OF hi_nibble[of b]] hexdigit_line[OF lo_nibble[of b]]
  by (simp add: sprintf_x02_def line_byte_def)

lemma escape_loop_app: "escape_loop buf s = buf @ escape_loop [] s"
proof (induction s arbitrary: buf)
  case Nil show ?case by simp
next
  case (Cons b s)
  show ?case
    using Cons.IH[of "buf @ [0x5C, 0x6E]"] Cons.IH[of "buf @ [0x5C, 0x5C]"] Cons.IH[of "buf @ [b]"] Cons.IH[of "buf @ sprintf_x02 b"]
      Cons.IH[of "[0x5C, 0x6E]"] Cons.IH[of "[0x5C, 0x5C]"] Cons.IH[of "[b]"] Cons.IH[of "sprintf_x02 b"]
    by simp
qed

lemma escape_Nil: "escape [] = []" by (simp add: escape_def)

lemma escape_Cons:
  "escape (b # s) =
     (if b = 0x0A then [0x5C, 0x6E]
      else if b = 0x5C then [0x5C, 0x5C]
      else if b = 0 \<or> 128 \<le> b then sprintf_x02 b
      else [b]) @ escape s"
  unfolding escape_def
  using escape_loop_app[of "[0x5C, 0x6E]" s] escape_loop_app[of "[0x5C, 0x5C]" s]
    escape_loop_app[of "[b]" s] escape_loop_app[of "sprintf_x02 b" s]
  by (auto simp: word_neq_0_conv not_le)

lemma escape_line: "list_all line_byte (escape s)"
proof (induction s)
  case Nil show ?case by (simp add: escape_Nil)
next
  case (Cons b s)
  have "list_all line_byte
     (if b = 0x0A then [0x5C, 0x6E]
      else if b = 0x5C then [0x5C, 0x5C]
      else if b = 0 \<or> 128 \<le> b then sprintf_x02 b
      else [b])"
    using sprintf_x02_line[of b] by (auto simp: line_byte_def word_neq_0_conv not_le)
  with Cons show ?case by (simp only: escape_Cons list_all_append simp_thms)
qed

lemma formatLine_loop_line:
  "list_all line_byte buf \<Longrightarrow> list_all line_byte (formatLine_loop buf v)"
proof (induction v arbitrary: buf)
  case Nil then show ?case by simp
next
  case (Cons x v)
  have "list_all line_byte (buf @ ([0x20] @ escape x))"
  proof -
    have "line_byte 0x20" by (simp add: line_byte_def)
    with Cons.prems escape_line[of x] show ?thesis by simp
  qed
  then show ?case using Cons.IH by simp
qed

text \<open>
  C10 (amended). For every input string, \<open>escape\<close> returns only bytes in 1..127 and no
  newline: a newline becomes backslash-n, a backslash is doubled, a byte that is 0 or at
  least 128 becomes the four characters backslash, x and two hexadecimal digits, and every
  other byte is kept. \<open>formatLine\<close> writes its keyword unescaped, so the line it builds
  is a single line of ASCII-range bytes whenever the keyword is one.
\<close>

theorem escape_formatLine_line:
  "list_all line_byte (escape s) \<and>
   escape [] = [] \<and>
   escape (b # s) =
     (if b = 0x0A then [0x5C, 0x6E]
      else if b = 0x5C then [0x5C, 0x5C]
      else if b = 0 \<or> 128 \<le> b then [0x5C, 0x78, hexdigit (drop_bit 4 b), hexdigit (b AND 0x0F)]
      else [b]) @ escape s \<and>
   (list_all line_byte keyword \<longrightarrow> list_all line_byte (formatLine keyword v))"
  using escape_line[of s] escape_Nil escape_Cons[of b s] formatLine_loop_line[of keyword v]
  by (simp add: formatLine_def sprintf_x02_def)

theorem escape_formatLine_line_witness:
  "list_all line_byte (bytes_of ''ENV-ERROR'') \<and>
   formatLine (bytes_of ''ENV-ERROR'') [[0x61, 0x0A, 0xC3], [0x5C, 0x00]] =
     bytes_of ''ENV-ERROR a'' @ [0x5C, 0x6E, 0x5C, 0x78, 0x63, 0x33, 0x20, 0x5C, 0x5C, 0x5C, 0x78, 0x30, 0x30] \<and>
   list_all line_byte (formatLine (bytes_of ''ENV-ERROR'') [[0x61, 0x0A, 0xC3], [0x5C, 0x00]])"
  using escape_formatLine_line[of "[]" 0 "bytes_of ''ENV-ERROR''" "[[0x61, 0x0A, 0xC3], [0x5C, 0x00]]"]
  by (simp add: bytes_of_def line_byte_def formatLine_def escape_def sprintf_x02_def hexdigit_def)

text \<open>
  C10 as stated fails: the keyword is copied into the line as it is, so a keyword holding
  a newline gives a line that holds one.
\<close>

theorem formatLine_keyword_counterexample:
  "formatLine [0x0A] [] = [0x0A] \<and> \<not> list_all line_byte (formatLine [0x0A] [])"
  by (simp add: formatLine_def line_byte_def)

section \<open>Properties of the readers and of the cookie loader\<close>

lemma next_chunk_None: "next_chunk n cs = None \<longleftrightarrow> concat cs = []"
  by (induction cs) auto

lemma next_chunk_Some:
  "next_chunk n cs = Some (bs, cs') \<Longrightarrow> 0 < n \<Longrightarrow>
     bs \<noteq> [] \<and> length bs \<le> n \<and> concat cs = bs @ concat cs'"
  by (induction cs) (auto split: if_splits)

lemma src_Read_empty:
  "0 < n \<Longrightarrow> pending src = [] \<Longrightarrow>
     src_Read n src = (([], Some (final_err src)), src\<lparr>chunks := []\<rparr>)"
  using next_chunk_None[of n "chunks src"]
  by (simp add: src_Read_def pending_def)

lemma src_Read_data:
  assumes "0 < n" and "pending src \<noteq> []"
  shows "\<exists>bs cs'. src_Read n src = ((bs, None), src\<lparr>chunks := cs'\<rparr>) \<and>
           bs \<noteq> [] \<and> length bs \<le> n \<and> pending src = bs @ concat cs'"
proof -
  from assms(2) obtain bs cs' where nc: "next_chunk n (chunks src) = Some (bs, cs')"
    using next_chunk_None[of n "chunks src"] by (cases "next_chunk n (chunks src)") (auto simp: pending_def)
  from next_chunk_Some[OF nc assms(1)] nc assms(1) show ?thesis
    by (auto simp: src_Read_def pending_def)
qed

lemma src_ReadAtLeast_ok:
  "m - length got \<le> length (pending src) \<Longrightarrow>
     \<exists>cs'. src_ReadAtLeast src m got =
             ((got @ take (m - length got) (pending src), None), src\<lparr>chunks := cs'\<rparr>) \<and>
           concat cs' = drop (m - length got) (pending src)"
proof (induction src m got rule: src_ReadAtLeast.induct)
  case (1 src m got)
  show ?case
  proof (cases "length got < m")
    case False
    then have "src_ReadAtLeast src m got = ((got, None), src)"
      by (simp add: src_ReadAtLeast.simps ReadAtLeast_result_def)
    with False show ?thesis
      by (intro exI[of _ "chunks src"]) (simp add: pending_def)
  next
    case True
    then have pos: "0 < m - length got" by simp
    with "1.prems" have ne: "pending src \<noteq> []" by auto
    from src_Read_data[OF pos ne] obtain bs cs1 where
      r: "src_Read (m - length got) src = ((bs, None), src\<lparr>chunks := cs1\<rparr>)"
      and bs: "bs \<noteq> []" "length bs \<le> m - length got" "pending src = bs @ concat cs1"
      by blast
    have p1: "pending (src\<lparr>chunks := cs1\<rparr>) = concat cs1" by (simp add: pending_def)
    have prem: "m - length (got @ bs) \<le> length (pending (src\<lparr>chunks := cs1\<rparr>))"
      using "1.prems" bs p1 by simp
    from "1.IH"[OF True r[symmetric] refl refl prem]
    obtain cs' where
      ih: "src_ReadAtLeast (src\<lparr>chunks := cs1\<rparr>) m (got @ bs) =
             (((got @ bs) @ take (m - length (got @ bs)) (concat cs1), None), src\<lparr>chunks := cs'\<rparr>)"
      and rest: "concat cs' = drop (m - length (got @ bs)) (concat cs1)"
      unfolding p1 by auto
    have unf: "src_ReadAtLeast src m got = src_ReadAtLeast (src\<lparr>chunks := cs1\<rparr>) m (got @ bs)"
      using True r by (subst src_ReadAtLeast.simps) simp
    have t: "bs @ take (m - length (got @ bs)) (concat cs1) = take (m - length got) (pending src)"
      using bs by (simp add: diff_diff_eq)
    have d: "drop (m - length (got @ bs)) (concat cs1) = drop (m - length got) (pending src)"
      using bs by (simp add: diff_diff_eq)
    show ?thesis using unf ih rest t d by auto
  qed
qed


lemma src_ReadAtLeast_short:
  "length got + length (pending src) < m \<Longrightarrow>
     src_ReadAtLeast src m got =
       ((got @ pending src,
         Some (if got @ pending src \<noteq> [] \<and> final_err src = EOF then ErrUnexpectedEOF
               else final_err src)),
        src\<lparr>chunks := []\<rparr>)"
proof (induction src m got rule: src_ReadAtLeast.induct)
  case (1 src m got)
  from "1.prems" have lt: "length got < m" and pos: "0 < m - length got" by simp_all
  show ?case
  proof (cases "pending src = []")
    case True
    from src_Read_empty[OF pos True] lt "1.prems" True show ?thesis
      by (subst src_ReadAtLeast.simps) (simp add: ReadAtLeast_result_def)
  next
    case False
    from src_Read_data[OF pos False] obtain bs cs1 where
      r: "src_Read (m - length got) src = ((bs, None), src\<lparr>chunks := cs1\<rparr>)"
      and bs: "bs \<noteq> []" "length bs \<le> m - length got" "pending src = bs @ concat cs1"
      by blast
    have p1: "pending (src\<lparr>chunks := cs1\<rparr>) = concat cs1" by (simp add: pending_def)
    have prem: "length (got @ bs) + length (pending (src\<lparr>chunks := cs1\<rparr>)) < m"
      using "1.prems" bs p1 by simp
    have unf: "src_ReadAtLeast src m got = src_ReadAtLeast (src\<lparr>chunks := cs1\<rparr>) m (got @ bs)"
      using lt r by (subst src_ReadAtLeast.simps) simp
    from "1.IH"[OF lt r[symmetric] refl refl prem] unf bs p1 show ?thesis by simp
  qed
qed

lemma src_ReadFull_ok:
  assumes "n \<le> length (pending src)"
  shows "\<exists>cs'. src_ReadFull src n = ((take n (pending src), None), src\<lparr>chunks := cs'\<rparr>) \<and>
           concat cs' = drop n (pending src)"
proof -
  from src_ReadAtLeast_ok[of n "[]" src] assms obtain cs' where
    "src_ReadAtLeast src n [] = ((take n (pending src), None), src\<lparr>chunks := cs'\<rparr>)"
    "concat cs' = drop n (pending src)" by auto
  then show ?thesis using assms by (auto simp: src_ReadFull_def)
qed

lemma src_ReadFull_short:
  assumes "length (pending src) < n"
  shows "src_ReadFull src n =
           ((pending src @ replicate (n - length (pending src)) 0,
             Some (if pending src \<noteq> [] \<and> final_err src = EOF then ErrUnexpectedEOF
                   else final_err src)),
            src\<lparr>chunks := []\<rparr>)"
  using src_ReadAtLeast_short[of "[]" src n] assms by (simp add: src_ReadFull_def)

lemma length_authCookieHeader: "length authCookieHeader = 32"
  by (simp add: authCookieHeader_def bytes_of_def)

text \<open>What the loader does with a file that has at least 64 bytes.\<close>

lemma readAuthCookieFile_long:
  assumes f: "fs filename = Inr f" and len: "64 \<le> length (pending f)"
  shows "readAuthCookieFile fs filename =
     (take 32 (drop 32 (pending f)),
      if 64 < length (pending f) then Some (ErrorString ''file is longer than 64 bytes'')
      else if final_err f \<noteq> EOF then Some (ErrorString ''did not find EOF at end of file'')
      else if take 32 (pending f) \<noteq> authCookieHeader then Some (ErrorString ''missing auth cookie header'')
      else None)"
proof -
  from len have "32 \<le> length (pending f)" by simp
  from src_ReadFull_ok[OF this] obtain cs1 where
    r1: "src_ReadFull f 32 = ((take 32 (pending f), None), f\<lparr>chunks := cs1\<rparr>)"
    and c1: "concat cs1 = drop 32 (pending f)" by blast
  let ?f1 = "f\<lparr>chunks := cs1\<rparr>"
  have p1: "pending ?f1 = drop 32 (pending f)" using c1 by (simp add: pending_def)
  with len have "32 \<le> length (pending ?f1)" by simp
  from src_ReadFull_ok[OF this] obtain cs2 where
    r2: "src_ReadFull ?f1 32 = ((take 32 (pending ?f1), None), ?f1\<lparr>chunks := cs2\<rparr>)"
    and c2: "concat cs2 = drop 32 (pending ?f1)" by blast
  let ?f2 = "f\<lparr>chunks := cs2\<rparr>"
  have r2': "src_ReadFull ?f1 32 = ((take 32 (drop 32 (pending f)), None), ?f2)"
    using r2 p1 by simp
  have p2: "pending ?f2 = drop 64 (pending f)" using c2 p1 by (simp add: pending_def)
  show ?thesis
  proof (cases "64 < length (pending f)")
    case True
    then have "pending ?f2 \<noteq> []" using p2 by simp
    from src_Read_data[OF _ this, of 1] obtain bs cs3 where
      "src_Read 1 ?f2 = ((bs, None), ?f2\<lparr>chunks := cs3\<rparr>)" "bs \<noteq> []" by auto
    with f r1 r2' True show ?thesis by (simp add: readAuthCookieFile_def)
  next
    case False
    with len have "pending ?f2 = []" using p2 by simp
    from src_Read_empty[OF _ this, of 1]
    have "src_Read 1 ?f2 = (([], Some (final_err f)), ?f2\<lparr>chunks := []\<rparr>)" by simp
    with f r1 r2' False show ?thesis by (simp add: readAuthCookieFile_def)
  qed
qed

text \<open>A file with fewer than 64 bytes is refused.\<close>

lemma readAuthCookieFile_short:
  assumes f: "fs filename = Inr f" and len: "length (pending f) < 64"
  shows "snd (readAuthCookieFile fs filename) \<noteq> None"
proof (cases "length (pending f) < 32")
  case True
  from src_ReadFull_short[OF this] f show ?thesis by (simp add: readAuthCookieFile_def)
next
  case False
  then have "32 \<le> length (pending f)" by simp
  from src_ReadFull_ok[OF this] obtain cs1 where
    r1: "src_ReadFull f 32 = ((take 32 (pending f), None), f\<lparr>chunks := cs1\<rparr>)"
    and c1: "concat cs1 = drop 32 (pending f)" by blast
  let ?f1 = "f\<lparr>chunks := cs1\<rparr>"
  have "pending ?f1 = drop 32 (pending f)" using c1 by (simp add: pending_def)
  with len have "length (pending ?f1) < 32" by simp
  from src_ReadFull_short[OF this] f r1 show ?thesis by (simp add: readAuthCookieFile_def)
qed


text \<open>
  C2. For every file that opens, the loader returns the trailing 32 bytes as the cookie,
  with no error, when the file is exactly 64 bytes long, ends there and starts with the
  32-byte header; when its length is not 64, its header does not match or reading it
  does not end in end-of-file, the loader returns an error.
\<close>

theorem readAuthCookieFile_exact:
  assumes "fs filename = Inr f"
  shows "(length (pending f) = 64 \<and> take 32 (pending f) = authCookieHeader \<and> final_err f = EOF
            \<longrightarrow> readAuthCookieFile fs filename = (drop 32 (pending f), None)) \<and>
         (length (pending f) \<noteq> 64 \<or> take 32 (pending f) \<noteq> authCookieHeader \<or> final_err f \<noteq> EOF
            \<longrightarrow> snd (readAuthCookieFile fs filename) \<noteq> None)"
proof (cases "64 \<le> length (pending f)")
  case True
  from readAuthCookieFile_long[of fs filename f, OF assms True] True show ?thesis by auto
next
  case False
  then have "length (pending f) < 64" by simp
  from readAuthCookieFile_short[of fs filename f, OF assms this] False show ?thesis by auto
qed

theorem readAuthCookieFile_exact_witness:
  "readAuthCookieFile
     (\<lambda>name. Inr \<lparr>chunks = [authCookieHeader, replicate 32 7], final_err = EOF\<rparr>) ''cookie'' =
     (replicate 32 7, None) \<and>
   snd (readAuthCookieFile
     (\<lambda>name. Inr \<lparr>chunks = [authCookieHeader, replicate 33 7], final_err = EOF\<rparr>) ''cookie'') \<noteq> None"
  using readAuthCookieFile_exact[of "\<lambda>name. Inr \<lparr>chunks = [authCookieHeader, replicate 32 7], final_err = EOF\<rparr>"
      "''cookie''" "\<lparr>chunks = [authCookieHeader, replicate 32 7], final_err = EOF\<rparr>"]
    readAuthCookieFile_exact[of "\<lambda>name. Inr \<lparr>chunks = [authCookieHeader, replicate 33 7], final_err = EOF\<rparr>"
      "''cookie''" "\<lparr>chunks = [authCookieHeader, replicate 33 7], final_err = EOF\<rparr>"]
  by (simp add: pending_def length_authCookieHeader)

text \<open>
  C9. When the loader fails after it has read the first 64 bytes of the file (the file is
  longer than 64 bytes, or the read after them does not report end-of-file, or the header
  does not match), it returns, beside the error, the 32 bytes it read from file positions
  32..63.
\<close>

theorem readAuthCookieFile_failure_returns_bytes:
  assumes "fs filename = Inr f" and "64 \<le> length (pending f)"
    and "64 < length (pending f) \<or> final_err f \<noteq> EOF \<or> take 32 (pending f) \<noteq> authCookieHeader"
  shows "readAuthCookieFile fs filename =
     (take 32 (drop 32 (pending f)),
      Some (ErrorString
        (if 64 < length (pending f) then ''file is longer than 64 bytes''
         else if final_err f \<noteq> EOF then ''did not find EOF at end of file''
         else ''missing auth cookie header'')))"
  using readAuthCookieFile_long[of fs filename f, OF assms(1,2)] assms(3) by auto

theorem readAuthCookieFile_failure_returns_bytes_witness:
  "readAuthCookieFile
     (\<lambda>name. Inr \<lparr>chunks = [0 # replicate 31 1, replicate 32 7, [9]], final_err = EOF\<rparr>) ''cookie'' =
     (replicate 32 7, Some (ErrorString ''file is longer than 64 bytes'')) \<and>
   readAuthCookieFile
     (\<lambda>name. Inr \<lparr>chunks = [0 # replicate 31 1, replicate 32 7], final_err = SysError 5\<rparr>) ''cookie'' =
     (replicate 32 7, Some (ErrorString ''did not find EOF at end of file'')) \<and>
   readAuthCookieFile
     (\<lambda>name. Inr \<lparr>chunks = [0 # replicate 31 1, replicate 32 7], final_err = EOF\<rparr>) ''cookie'' =
     (replicate 32 7, Some (ErrorString ''missing auth cookie header''))"
  using readAuthCookieFile_failure_returns_bytes[of
      "\<lambda>name. Inr \<lparr>chunks = [0 # replicate 31 1, replicate 32 7, [9]], final_err = EOF\<rparr>"
      "''cookie''" "\<lparr>chunks = [0 # replicate 31 1, replicate 32 7, [9]], final_err = EOF\<rparr>"]
    readAuthCookieFile_failure_returns_bytes[of
      "\<lambda>name. Inr \<lparr>chunks = [0 # replicate 31 1, replicate 32 7], final_err = SysError 5\<rparr>"
      "''cookie''" "\<lparr>chunks = [0 # replicate 31 1, replicate 32 7], final_err = SysError 5\<rparr>"]
    readAuthCookieFile_failure_returns_bytes[of
      "\<lambda>name. Inr \<lparr>chunks = [0 # replicate 31 1, replicate 32 7], final_err = EOF\<rparr>"
      "''cookie''" "\<lparr>chunks = [0 # replicate 31 1, replicate 32 7], final_err = EOF\<rparr>"]
  by (simp add: pending_def authCookieHeader_def bytes_of_def)

section \<open>Properties of connections and of the command framing\<close>

lemma Uint16_PutUint16: "Uint16 (PutUint16 v) = v"
  unfolding Uint16_def PutUint16_def
  apply (rule bit_word_eqI)
  apply (auto simp: bit_simps)
  done



lemma length_PutUint16: "length (PutUint16 v) = 2"
  by (simp add: PutUint16_def)

lemma unat_len16: "n \<le> 65535 \<Longrightarrow> unat (of_nat n :: uint16) = n"
  by (simp add: unat_of_nat take_bit_nat_eq_self)


lemma conn_Read_empty:
  "0 < n \<Longrightarrow> pending s = [] \<Longrightarrow>
     conn_Read n s =
       (([], Some (final_err s)), s\<lparr>chunks := [], io_log := io_log s @ [deadline s]\<rparr>)"
  using src_Read_empty[of n s] by (simp add: conn_Read_def)

lemma conn_Read_data:
  assumes "0 < n" and "pending s \<noteq> []"
  shows "\<exists>bs cs'. conn_Read n s =
             ((bs, None), s\<lparr>chunks := cs', io_log := io_log s @ [deadline s]\<rparr>) \<and>
           bs \<noteq> [] \<and> length bs \<le> n \<and> pending s = bs @ concat cs'"
proof -
  from src_Read_data[OF assms] obtain bs cs' where
    "src_Read n s = ((bs, None), s\<lparr>chunks := cs'\<rparr>)"
    "bs \<noteq> []" "length bs \<le> n" "pending s = bs @ concat cs'" by blast
  then show ?thesis by (auto simp: conn_Read_def)
qed

lemma conn_ReadAtLeast_ok:
  "m - length got \<le> length (pending s) \<Longrightarrow>
     \<exists>cs' k. conn_ReadAtLeast s m got =
             ((got @ take (m - length got) (pending s), None),
              s\<lparr>chunks := cs', io_log := io_log s @ replicate k (deadline s)\<rparr>) \<and>
           concat cs' = drop (m - length got) (pending s)"
proof (induction s m got rule: conn_ReadAtLeast.induct)
  case (1 s m got)
  show ?case
  proof (cases "length got < m")
    case False
    then have "conn_ReadAtLeast s m got = ((got, None), s)"
      by (simp add: conn_ReadAtLeast.simps ReadAtLeast_result_def)
    with False show ?thesis
      by (intro exI[of _ "chunks s"] exI[of _ 0]) (simp add: pending_def)
  next
    case True
    then have pos: "0 < m - length got" by simp
    with "1.prems" have ne: "pending s \<noteq> []" by auto
    from conn_Read_data[OF pos ne] obtain bs cs1 where
      r: "conn_Read (m - length got) s =
            ((bs, None), s\<lparr>chunks := cs1, io_log := io_log s @ [deadline s]\<rparr>)"
      and bs: "bs \<noteq> []" "length bs \<le> m - length got" "pending s = bs @ concat cs1"
      by blast
    let ?s1 = "s\<lparr>chunks := cs1, io_log := io_log s @ [deadline s]\<rparr>"
    have p1: "pending ?s1 = concat cs1" by (simp add: pending_def)
    have prem: "m - length (got @ bs) \<le> length (pending ?s1)"
      using "1.prems" bs p1 by simp
    from "1.IH"[OF True r[symmetric] refl refl prem]
    obtain cs' k where
      ih: "conn_ReadAtLeast ?s1 m (got @ bs) =
             (((got @ bs) @ take (m - length (got @ bs)) (concat cs1), None),
              ?s1\<lparr>chunks := cs', io_log := io_log ?s1 @ replicate k (deadline ?s1)\<rparr>)"
      and rest: "concat cs' = drop (m - length (got @ bs)) (concat cs1)"
      unfolding p1 by auto
    have unf: "conn_ReadAtLeast s m got = conn_ReadAtLeast ?s1 m (got @ bs)"
      using True r by (subst conn_ReadAtLeast.simps) simp
    have t: "bs @ take (m - length (got @ bs)) (concat cs1) = take (m - length got) (pending s)"
      using bs by (simp add: diff_diff_eq)
    have d: "drop (m - length (got @ bs)) (concat cs1) = drop (m - length got) (pending s)"
      using bs by (simp add: diff_diff_eq)
    have st: "?s1\<lparr>chunks := cs', io_log := io_log ?s1 @ replicate k (deadline ?s1)\<rparr> =
              s\<lparr>chunks := cs', io_log := io_log s @ replicate (Suc k) (deadline s)\<rparr>"
      by simp
    show ?thesis
      using unf ih rest t d st
      by (intro exI[of _ cs'] exI[of _ "Suc k"]) (simp del: replicate_Suc)
  qed
qed

lemma conn_ReadFull_ok:
  assumes "n \<le> length (pending s)"
  shows "\<exists>cs' k. conn_ReadFull s n =
             ((take n (pending s), None),
              s\<lparr>chunks := cs', io_log := io_log s @ replicate k (deadline s)\<rparr>) \<and>
           concat cs' = drop n (pending s)"
proof -
  from conn_ReadAtLeast_ok[of n "[]" s] assms obtain cs' k where
    "conn_ReadAtLeast s n [] =
       ((take n (pending s), None), s\<lparr>chunks := cs', io_log := io_log s @ replicate k (deadline s)\<rparr>)"
    "concat cs' = drop n (pending s)" by auto
  then show ?thesis using assms
    by (intro exI[of _ cs'] exI[of _ k]) (simp add: conn_ReadFull_def)
qed


lemma conn_Write_ok:
  "can_write s (length bs) \<Longrightarrow>
     conn_Write bs s =
       (None, s\<lparr>written := written s @ bs,
                wr_room := map_option (\<lambda>k. k - length bs) (wr_room s),
                io_log := io_log s @ [deadline s]\<rparr>)"
  by (auto simp: conn_Write_def can_write_def Let_def split: option.splits)

lemma conn_Write_None:
  "conn_Write bs s = (None, s') \<Longrightarrow>
     can_write s (length bs) \<and> written s' = written s @ bs"
  by (auto simp: conn_Write_def can_write_def Let_def split: option.splits if_splits)

lemma frame_alt: "frame cmd body = PutUint16 cmd @ PutUint16 (of_nat (length body)) @ body"
  by (simp add: frame_def PutUint16_def)

lemma length_frame: "length (frame cmd body) = 4 + length body"
  by (simp add: frame_def)

lemma extOrPortWriteCommand_ok:
  assumes "length body \<le> 65535" and "can_write s (length (frame cmd body))"
  shows "extOrPortWriteCommand s cmd body =
       (None, s\<lparr>written := written s @ frame cmd body,
                wr_room := map_option (\<lambda>k. k - length (frame cmd body)) (wr_room s),
                io_log := io_log s @ [deadline s]\<rparr>)"
  using assms conn_Write_ok[of s "frame cmd body"]
  by (simp add: extOrPortWriteCommand_def frame_alt Let_def)

lemma extOrPortWriteCommand_None:
  assumes "extOrPortWriteCommand s cmd body = (None, s')"
  shows "length body \<le> 65535 \<and> written s' = written s @ frame cmd body"
proof -
  from assms have len: "length body \<le> 65535"
    by (auto simp: extOrPortWriteCommand_def split: if_splits)
  with assms have "conn_Write (frame cmd body) s = (None, s')"
    by (simp add: extOrPortWriteCommand_def frame_alt Let_def)
  from conn_Write_None[OF this] len show ?thesis by simp
qed

lemma extOrPortRecvCommand_frame:
  assumes len: "length body \<le> 65535" and p: "pending r = frame cmd body @ rest"
  shows "\<exists>cs k. extOrPortRecvCommand r =
            ((cmd, body, None), r\<lparr>chunks := cs, io_log := io_log r @ replicate k (deadline r)\<rparr>) \<and>
          concat cs = rest"
proof -
  have p': "pending r = PutUint16 cmd @ PutUint16 (of_nat (length body)) @ body @ rest"
    using p by (simp add: frame_alt)
  then have "4 \<le> length (pending r)" by (simp add: length_PutUint16)
  from conn_ReadFull_ok[OF this] obtain cs1 k1 where
    r1: "conn_ReadFull r 4 =
           ((take 4 (pending r), None),
            r\<lparr>chunks := cs1, io_log := io_log r @ replicate k1 (deadline r)\<rparr>)"
    and c1: "concat cs1 = drop 4 (pending r)" by blast
  let ?r1 = "r\<lparr>chunks := cs1, io_log := io_log r @ replicate k1 (deadline r)\<rparr>"
  have data: "take 4 (pending r) = PutUint16 cmd @ PutUint16 (of_nat (length body))"
    using p' by (simp add: length_PutUint16)
  have cmd: "Uint16 (take 2 (take 4 (pending r))) = cmd"
    unfolding data by (simp add: length_PutUint16 Uint16_PutUint16)
  have bl: "unat (Uint16 (drop 2 (take 4 (pending r)))) = length body"
    unfolding data by (simp add: length_PutUint16 Uint16_PutUint16 unat_len16[OF len])
  have p1: "pending ?r1 = body @ rest"
    using c1 p' by (simp add: pending_def length_PutUint16)
  then have "length body \<le> length (pending ?r1)" by simp
  from conn_ReadFull_ok[OF this] obtain cs2 k2 where
    r2: "conn_ReadFull ?r1 (length body) =
           ((take (length body) (pending ?r1), None),
            ?r1\<lparr>chunks := cs2, io_log := io_log ?r1 @ replicate k2 (deadline ?r1)\<rparr>)"
    and c2: "concat cs2 = drop (length body) (pending ?r1)" by blast
  have st: "?r1\<lparr>chunks := cs2, io_log := io_log ?r1 @ replicate k2 (deadline ?r1)\<rparr> =
            r\<lparr>chunks := cs2, io_log := io_log r @ replicate (k1 + k2) (deadline r)\<rparr>"
    by (simp add: replicate_add)
  have "extOrPortRecvCommand r =
          ((cmd, body, None), r\<lparr>chunks := cs2, io_log := io_log r @ replicate (k1 + k2) (deadline r)\<rparr>)"
    unfolding extOrPortRecvCommand_def r1
    using cmd bl r2 st p1 by (simp add: Let_def)
  moreover have "concat cs2 = rest" using c2 p1 by simp
  ultimately show ?thesis by blast
qed


lemma conn_ReadAtLeast_short:
  "length got + length (pending s) < m \<Longrightarrow>
     \<exists>k. conn_ReadAtLeast s m got =
       ((got @ pending s,
         Some (if got @ pending s \<noteq> [] \<and> final_err s = EOF then ErrUnexpectedEOF
               else final_err s)),
        s\<lparr>chunks := [], io_log := io_log s @ replicate k (deadline s)\<rparr>)"
proof (induction s m got rule: conn_ReadAtLeast.induct)
  case (1 s m got)
  from "1.prems" have lt: "length got < m" and pos: "0 < m - length got" by simp_all
  show ?case
  proof (cases "pending s = []")
    case True
    from conn_Read_empty[OF pos True] lt "1.prems" True
    have "conn_ReadAtLeast s m got =
       ((got @ pending s,
         Some (if got @ pending s \<noteq> [] \<and> final_err s = EOF then ErrUnexpectedEOF
               else final_err s)),
        s\<lparr>chunks := [], io_log := io_log s @ replicate 1 (deadline s)\<rparr>)"
      by (subst conn_ReadAtLeast.simps) (simp add: ReadAtLeast_result_def)
    then show ?thesis by blast
  next
    case False
    from conn_Read_data[OF pos False] obtain bs cs1 where
      r: "conn_Read (m - length got) s =
            ((bs, None), s\<lparr>chunks := cs1, io_log := io_log s @ [deadline s]\<rparr>)"
      and bs: "bs \<noteq> []" "length bs \<le> m - length got" "pending s = bs @ concat cs1"
      by blast
    let ?s1 = "s\<lparr>chunks := cs1, io_log := io_log s @ [deadline s]\<rparr>"
    have p1: "pending ?s1 = concat cs1" by (simp add: pending_def)
    have prem: "length (got @ bs) + length (pending ?s1) < m"
      using "1.prems" bs p1 by simp
    have unf: "conn_ReadAtLeast s m got = conn_ReadAtLeast ?s1 m (got @ bs)"
      using lt r by (subst conn_ReadAtLeast.simps) simp
    from "1.IH"[OF lt r[symmetric] refl refl prem] obtain k where
      ih: "conn_ReadAtLeast ?s1 m (got @ bs) =
        (((got @ bs) @ pending ?s1,
          Some (if (got @ bs) @ pending ?s1 \<noteq> [] \<and> final_err ?s1 = EOF then ErrUnexpectedEOF
                else final_err ?s1)),
         ?s1\<lparr>chunks := [], io_log := io_log ?s1 @ replicate k (deadline ?s1)\<rparr>)"
      by blast
    have st: "?s1\<lparr>chunks := [], io_log := io_log ?s1 @ replicate k (deadline ?s1)\<rparr> =
              s\<lparr>chunks := [], io_log := io_log s @ replicate (Suc k) (deadline s)\<rparr>"
      by simp
    show ?thesis
      using unf ih st bs p1
      by (intro exI[of _ "Suc k"]) (simp del: replicate_Suc)
  qed
qed

lemma conn_ReadFull_short:
  assumes "length (pending s) < n"
  shows "\<exists>k. conn_ReadFull s n =
           ((pending s @ replicate (n - length (pending s)) 0,
             Some (if pending s \<noteq> [] \<and> final_err s = EOF then ErrUnexpectedEOF
                   else final_err s)),
            s\<lparr>chunks := [], io_log := io_log s @ replicate k (deadline s)\<rparr>)"
proof -
  from conn_ReadAtLeast_short[of "[]" s n] assms obtain k where
    "conn_ReadAtLeast s n [] =
       (([] @ pending s,
         Some (if [] @ pending s \<noteq> [] \<and> final_err s = EOF then ErrUnexpectedEOF
               else final_err s)),
        s\<lparr>chunks := [], io_log := io_log s @ replicate k (deadline s)\<rparr>)" by auto
  then show ?thesis by (intro exI[of _ k]) (simp add: conn_ReadFull_def)
qed

text \<open>Every outcome of \<open>conn_ReadFull\<close>, in one statement.\<close>

lemma conn_ReadFull_cases:
  "\<exists>cs k. snd (conn_ReadFull s n) = s\<lparr>chunks := cs, io_log := io_log s @ replicate k (deadline s)\<rparr> \<and>
     (if n \<le> length (pending s)
      then fst (conn_ReadFull s n) = (take n (pending s), None) \<and> concat cs = drop n (pending s)
      else fst (conn_ReadFull s n) =
             (pending s @ replicate (n - length (pending s)) 0,
              Some (if pending s \<noteq> [] \<and> final_err s = EOF then ErrUnexpectedEOF
                    else final_err s)) \<and> cs = [])"
proof (cases "n \<le> length (pending s)")
  case True
  from conn_ReadFull_ok[OF True] obtain cs k where
    "conn_ReadFull s n = ((take n (pending s), None),
        s\<lparr>chunks := cs, io_log := io_log s @ replicate k (deadline s)\<rparr>)"
    "concat cs = drop n (pending s)" by blast
  with True show ?thesis by (intro exI[of _ cs] exI[of _ k]) simp
next
  case False
  then have "length (pending s) < n" by simp
  from conn_ReadFull_short[OF this] obtain k where
    "conn_ReadFull s n =
           ((pending s @ replicate (n - length (pending s)) 0,
             Some (if pending s \<noteq> [] \<and> final_err s = EOF then ErrUnexpectedEOF
                   else final_err s)),
            s\<lparr>chunks := [], io_log := io_log s @ replicate k (deadline s)\<rparr>)" by blast
  with False show ?thesis by (intro exI[of _ "[]"] exI[of _ k]) simp
qed



text \<open>
  C3. Command framing round-trip. For every command id and every body of 0 to 65535 bytes,
  \<open>extOrPortWriteCommand\<close> writes exactly the frame (two big-endian id bytes, two
  big-endian length bytes, the body, and nothing else) when the connection takes it; and
  whatever \<open>extOrPortWriteCommand\<close> wrote without error, \<open>extOrPortRecvCommand\<close> reads
  back as exactly that id and that body, however the bytes arrive, and leaves what follows
  them unread.
\<close>

theorem command_roundtrip:
  "(length body \<le> 65535 \<and> can_write s (4 + length body) \<longrightarrow>
      (\<exists>s'. extOrPortWriteCommand s cmd body = (None, s') \<and>
            written s' = written s @ frame cmd body)) \<and>
   (extOrPortWriteCommand s cmd body = (None, s1) \<and>
    pending r = drop (length (written s)) (written s1) @ rest \<longrightarrow>
      (\<exists>r'. extOrPortRecvCommand r = ((cmd, body, None), r') \<and> pending r' = rest))"
proof (intro conjI impI)
  assume a: "length body \<le> 65535 \<and> can_write s (4 + length body)"
  then have "can_write s (length (frame cmd body))" by (simp add: length_frame)
  from extOrPortWriteCommand_ok[OF _ this] a
  show "\<exists>s'. extOrPortWriteCommand s cmd body = (None, s') \<and>
            written s' = written s @ frame cmd body" by simp
next
  assume a: "extOrPortWriteCommand s cmd body = (None, s1) \<and>
    pending r = drop (length (written s)) (written s1) @ rest"
  from extOrPortWriteCommand_None[of s cmd body s1] a
  have len: "length body \<le> 65535" and w: "written s1 = written s @ frame cmd body" by simp_all
  from a w have "pending r = frame cmd body @ rest" by simp
  from extOrPortRecvCommand_frame[OF len this] obtain cs k where
    "extOrPortRecvCommand r =
       ((cmd, body, None), r\<lparr>chunks := cs, io_log := io_log r @ replicate k (deadline r)\<rparr>)"
    "concat cs = rest" by blast
  then show "\<exists>r'. extOrPortRecvCommand r = ((cmd, body, None), r') \<and> pending r' = rest"
    by (simp add: pending_def)
qed

theorem command_roundtrip_witness:
  "(\<exists>s'. extOrPortWriteCommand (new_conn [] EOF) 0x1000 [1, 2, 3] = (None, s') \<and>
         written s' = [0x10, 0, 0, 3, 1, 2, 3]) \<and>
   (\<exists>r'. extOrPortRecvCommand (new_conn [[0x10, 0], [0, 3, 1, 2], [3, 9]] EOF) =
           ((0x1000, [1, 2, 3], None), r') \<and> pending r' = [9])"
proof -
  have w: "extOrPortWriteCommand (new_conn [] EOF) 0x1000 [1, 2, 3] =
             (None, (new_conn [] EOF)\<lparr>written := [0x10, 0, 0, 3, 1, 2, 3], io_log := [None]\<rparr>)"
    by (simp add: extOrPortWriteCommand_def conn_Write_def new_conn_def PutUint16_def Let_def)
  have p: "pending (new_conn [[0x10, 0], [0, 3, 1, 2], [3, 9]] EOF) =
        drop (length (written (new_conn [] EOF)))
          (written ((new_conn [] EOF)\<lparr>written := [0x10, 0, 0, 3, 1, 2, 3], io_log := [None]\<rparr>)) @ [9]"
    by (simp add: pending_def new_conn_def)
  have c: "length [1, 2, 3 :: byte] \<le> 65535 \<and> can_write (new_conn [] EOF) (4 + length [1, 2, 3 :: byte])"
    by (simp add: can_write_def new_conn_def)
  from command_roundtrip[of "[1, 2, 3]" "new_conn [] EOF" "0x1000"
      "(new_conn [] EOF)\<lparr>written := [0x10, 0, 0, 3, 1, 2, 3], io_log := [None]\<rparr>"
      "new_conn [[0x10, 0], [0, 3, 1, 2], [3, 9]] EOF" "[9]"] w p c
  show ?thesis by (simp add: frame_def new_conn_def)
qed

section \<open>Properties of the session setup\<close>

lemma io_only_refl: "io_only s s"
  unfolding io_only_def by (auto intro: exI[of _ 0])

lemma io_only_trans:
  assumes "io_only s s'" and "io_only s' s''"
  shows "io_only s s''"
proof -
  from assms obtain k1 k2 where
    "io_log s' = io_log s @ replicate k1 (deadline s)"
    "io_log s'' = io_log s' @ replicate k2 (deadline s')" "deadline s' = deadline s"
    unfolding io_only_def by auto
  then have "io_log s'' = io_log s @ replicate (k1 + k2) (deadline s)"
    by (simp add: replicate_add)
  with assms show ?thesis unfolding io_only_def by auto
qed

lemma io_only_update:
  "io_only s (s\<lparr>chunks := cs, io_log := io_log s @ replicate k (deadline s)\<rparr>)"
  unfolding io_only_def by auto

lemma conn_Write_io: "conn_Write bs s = (e, s') \<Longrightarrow> io_only s s' \<and> chunks s' = chunks s"
  unfolding io_only_def conn_Write_def
  by (auto simp: Let_def split: option.splits if_splits intro: exI[of _ "Suc 0"])

lemma extOrPortWriteCommand_io:
  "extOrPortWriteCommand s cmd body = (e, s') \<Longrightarrow> io_only s s' \<and> chunks s' = chunks s"
  unfolding extOrPortWriteCommand_def
  by (auto simp: Let_def io_only_refl split: if_splits dest: conn_Write_io)


lemma conn_ReadFull_io:
  "conn_ReadFull s n = (res, s') \<Longrightarrow>
     io_only s s' \<and> written s' = written s \<and> wr_room s' = wr_room s"
  using conn_ReadFull_cases[of s n] by (auto simp: io_only_update)

lemma extOrPortRecvCommand_io:
  assumes "extOrPortRecvCommand s = (res, s')"
  shows "io_only s s' \<and> written s' = written s \<and> wr_room s' = wr_room s"
proof -
  obtain d e s1 where r1: "conn_ReadFull s 4 = ((d, e), s1)"
    by (metis surj_pair)
  note i1 = conn_ReadFull_io[OF r1]
  show ?thesis
  proof (cases e)
    case (Some err)
    with assms r1 have "s' = s1" by (simp add: extOrPortRecvCommand_def)
    with i1 show ?thesis by simp
  next
    case None
    obtain d2 e2 s2 where r2: "conn_ReadFull s1 (unat (Uint16 (drop 2 d))) = ((d2, e2), s2)"
      by (metis surj_pair)
    note i2 = conn_ReadFull_io[OF r2]
    from assms r1 r2 None have "s' = s2"
      by (cases e2) (simp_all add: extOrPortRecvCommand_def Let_def)
    with i1 i2 show ?thesis by (auto intro: io_only_trans)
  qed
qed



lemma pending_chunks: "chunks s' = chunks s \<Longrightarrow> pending s' = pending s"
  by (simp add: pending_def)



lemma extOrPortSetup_io:
  assumes "extOrPortSetup s conn methodName = (e, s')"
  shows "io_only s s'"
proof -
  obtain e1 s1 where w1: "extOrPortWriteCommand s extOrCmdUserAddr (RemoteAddr conn) = (e1, s1)"
    by (metis surj_pair)
  obtain e2 s2 where w2: "extOrPortWriteCommand s1 extOrCmdTransport methodName = (e2, s2)"
    by (metis surj_pair)
  obtain e3 s3 where w3: "extOrPortWriteCommand s2 extOrCmdDone [] = (e3, s3)"
    by (metis surj_pair)
  obtain cmd body e4 s4 where r: "extOrPortRecvCommand s3 = ((cmd, body, e4), s4)"
    by (metis surj_pair)
  note d = extOrPortSetup_def extOrPortSendUserAddr_def extOrPortSendTransport_def
      extOrPortSendDone_def
  note i1 = extOrPortWriteCommand_io[OF w1] and i2 = extOrPortWriteCommand_io[OF w2]
    and i3 = extOrPortWriteCommand_io[OF w3] and i4 = extOrPortRecvCommand_io[OF r]
  have i12: "io_only s s2" using i1 i2 by (blast intro: io_only_trans)
  have i13: "io_only s s3" using i12 i3 by (blast intro: io_only_trans)
  have i14: "io_only s s4" using i13 i4 by (blast intro: io_only_trans)
  from assms w1 w2 w3 r have "s' = s1 \<or> s' = s2 \<or> s' = s3 \<or> s' = s4"
    unfolding d by (cases e1; cases e2; cases e3; cases e4) (auto split: if_splits)
  with i1 i12 i13 i14 show ?thesis by auto
qed




section \<open>Properties of the buffered reader\<close>

lemma reads_only_refl: "reads_only s s"
  unfolding reads_only_def by (intro exI[of _ "chunks s"] exI[of _ 0]) simp

lemma reads_only_trans:
  assumes "reads_only s s'" and "reads_only s' s''"
  shows "reads_only s s''"
proof -
  from assms obtain cs1 k1 cs2 k2 where
    1: "s' = s\<lparr>chunks := cs1, io_log := io_log s @ replicate k1 (deadline s)\<rparr>"
    and 2: "s'' = s'\<lparr>chunks := cs2, io_log := io_log s' @ replicate k2 (deadline s')\<rparr>"
    unfolding reads_only_def by blast
  have "s'' = s\<lparr>chunks := cs2, io_log := io_log s @ replicate (k1 + k2) (deadline s)\<rparr>"
    unfolding 2 1 by (simp add: replicate_add)
  then show ?thesis unfolding reads_only_def by blast
qed

lemma reads_only_fields:
  "reads_only s s' \<Longrightarrow>
     io_only s s' \<and> written s' = written s \<and> wr_room s' = wr_room s \<and>
     final_err s' = final_err s \<and> deadline s' = deadline s"
  unfolding reads_only_def io_only_def by auto

lemma reads_only_update:
  "reads_only s (s\<lparr>chunks := cs, io_log := io_log s @ replicate k (deadline s)\<rparr>)"
  unfolding reads_only_def by blast

lemma reads_only_step:
  "reads_only s (s\<lparr>chunks := cs, io_log := io_log s @ [deadline s]\<rparr>)"
  using reads_only_update[where s=s and cs=cs and k=1] by simp

text \<open>One \<open>bufio_fill\<close> on an empty buffer.\<close>

lemma bufio_fill_empty:
  assumes "bbuf b = []" and "pending (rd b) = []"
  shows "\<exists>b'. bufio_fill b = (Some (final_err (rd b)), b') \<and> bufio_pending b' = [] \<and>
           bbuf b' = [] \<and> reads_only (rd b) (rd b')"
proof -
  have "0 < defaultBufSize" by (simp add: defaultBufSize_def)
  from conn_Read_empty[OF this assms(2)] assms(1)
  have "bufio_fill b = (Some (final_err (rd b)),
      b\<lparr>rd := (rd b)\<lparr>chunks := [], io_log := io_log (rd b) @ [deadline (rd b)]\<rparr>\<rparr>)"
    by (simp add: bufio_fill_def)
  then show ?thesis using assms(1) reads_only_step[of "rd b" "[]"]
    by (simp add: bufio_pending_def pending_def)
qed

lemma bufio_fill_data:
  assumes "bbuf b = []" and "pending (rd b) \<noteq> []"
  shows "\<exists>b'. bufio_fill b = (None, b') \<and> bbuf b' \<noteq> [] \<and>
           bufio_pending b' = bufio_pending b \<and> reads_only (rd b) (rd b')"
proof -
  have "0 < defaultBufSize" by (simp add: defaultBufSize_def)
  from conn_Read_data[OF this assms(2)] obtain bs cs where
    r: "conn_Read defaultBufSize (rd b) =
          ((bs, None), (rd b)\<lparr>chunks := cs, io_log := io_log (rd b) @ [deadline (rd b)]\<rparr>)"
    and bs: "bs \<noteq> []" "pending (rd b) = bs @ concat cs" by blast
  from r assms(1) have "bufio_fill b = (None,
      b\<lparr>rd := (rd b)\<lparr>chunks := cs, io_log := io_log (rd b) @ [deadline (rd b)]\<rparr>, bbuf := bs\<rparr>)"
    by (simp add: bufio_fill_def)
  then show ?thesis using assms(1) bs reads_only_step[of "rd b" cs]
    by (simp add: bufio_pending_def pending_def)
qed

lemma bufio_ReadByte_buffered:
  "bbuf b = c # rest \<Longrightarrow> bufio_ReadByte b = (Inr c, b\<lparr>bbuf := rest\<rparr>)"
  by (subst bufio_ReadByte.simps) simp

lemma bufio_ReadByte_data:
  assumes "bufio_pending b = c # rest"
  shows "\<exists>b'. bufio_ReadByte b = (Inr c, b') \<and> bufio_pending b' = rest \<and>
           reads_only (rd b) (rd b')"
proof (cases "bbuf b")
  case (Cons c' rest')
  with assms have "c' = c" and "rest = rest' @ pending (rd b)"
    by (simp_all add: bufio_pending_def)
  with bufio_ReadByte_buffered[OF Cons] show ?thesis
    by (simp add: bufio_pending_def reads_only_refl)
next
  case Nil
  with assms have "pending (rd b) \<noteq> []" by (simp add: bufio_pending_def)
  from bufio_fill_data[OF Nil this] obtain b1 where
    f: "bufio_fill b = (None, b1)" and b1: "bbuf b1 \<noteq> []" "bufio_pending b1 = bufio_pending b"
      "reads_only (rd b) (rd b1)" by blast
  from b1(1) obtain c' rest' where bb: "bbuf b1 = c' # rest'" by (cases "bbuf b1") auto
  with b1(2) assms have "c' = c" and "rest = rest' @ pending (rd b1)"
    by (simp_all add: bufio_pending_def)
  moreover have "bufio_ReadByte b = bufio_ReadByte b1"
    using Nil f by (subst bufio_ReadByte.simps) simp
  ultimately show ?thesis using bufio_ReadByte_buffered[OF bb] b1(3)
    by (simp add: bufio_pending_def)
qed

lemma bufio_ReadByte_empty:
  assumes "bufio_pending b = []"
  shows "\<exists>b'. bufio_ReadByte b = (Inl (final_err (rd b)), b') \<and> bufio_pending b' = [] \<and>
           reads_only (rd b) (rd b')"
proof -
  from assms have e: "bbuf b = []" "pending (rd b) = []" by (simp_all add: bufio_pending_def)
  from bufio_fill_empty[OF e] obtain b1 where
    f: "bufio_fill b = (Some (final_err (rd b)), b1)" and b1: "bufio_pending b1 = []"
      "reads_only (rd b) (rd b1)" by blast
  have "bufio_ReadByte b = (Inl (final_err (rd b)), b1)"
    using e(1) f by (subst bufio_ReadByte.simps) simp
  with b1 show ?thesis by simp
qed

lemma bufio_ReadByte_reads:
  "bufio_ReadByte b = (res, b') \<Longrightarrow> reads_only (rd b) (rd b')"
  using bufio_ReadByte_empty[of b] bufio_ReadByte_data[of b]
  by (cases "bufio_pending b") auto


lemma bufio_Read_empty:
  assumes "0 < n" and "bufio_pending b = []"
  shows "\<exists>b'. bufio_Read n b = (([], Some (final_err (rd b))), b') \<and> bufio_pending b' = [] \<and>
           reads_only (rd b) (rd b')"
proof -
  from assms(2) have e: "bbuf b = []" "pending (rd b) = []" by (simp_all add: bufio_pending_def)
  show ?thesis
  proof (cases "defaultBufSize \<le> n")
    case True
    from conn_Read_empty[OF assms(1) e(2)] True e(1) assms(1)
    have "bufio_Read n b = (([], Some (final_err (rd b))),
        b\<lparr>rd := (rd b)\<lparr>chunks := [], io_log := io_log (rd b) @ [deadline (rd b)]\<rparr>\<rparr>)"
      by (simp add: bufio_Read_def)
    then show ?thesis using e(1) reads_only_step[of "rd b" "[]"]
      by (simp add: bufio_pending_def pending_def)
  next
    case False
    from bufio_fill_empty[OF e] obtain b1 where
      f: "bufio_fill b = (Some (final_err (rd b)), b1)" and b1: "bufio_pending b1 = []"
        "reads_only (rd b) (rd b1)" by blast
    from f False e(1) assms(1) have "bufio_Read n b = (([], Some (final_err (rd b))), b1)"
      by (simp add: bufio_Read_def)
    with b1 show ?thesis by simp
  qed
qed

lemma bufio_Read_data:
  assumes "0 < n" and "bufio_pending b \<noteq> []"
  shows "\<exists>bs b'. bufio_Read n b = ((bs, None), b') \<and> bs \<noteq> [] \<and> length bs \<le> n \<and>
           bufio_pending b = bs @ bufio_pending b' \<and> reads_only (rd b) (rd b')"
proof (cases "bbuf b = []")
  case False
  from False assms(1) have "bufio_Read n b = ((take n (bbuf b), None), b\<lparr>bbuf := drop n (bbuf b)\<rparr>)"
    by (simp add: bufio_Read_def)
  moreover have "take n (bbuf b) \<noteq> []" using False assms(1) by simp
  ultimately show ?thesis
    by (intro exI[of _ "take n (bbuf b)"] exI[of _ "b\<lparr>bbuf := drop n (bbuf b)\<rparr>"])
       (simp add: bufio_pending_def reads_only_refl)
next
  case True
  with assms(2) have ne: "pending (rd b) \<noteq> []" by (simp add: bufio_pending_def)
  show ?thesis
  proof (cases "defaultBufSize \<le> n")
    case big: True
    from conn_Read_data[OF assms(1) ne] obtain bs cs where
      r: "conn_Read n (rd b) =
            ((bs, None), (rd b)\<lparr>chunks := cs, io_log := io_log (rd b) @ [deadline (rd b)]\<rparr>)"
      and bs: "bs \<noteq> []" "length bs \<le> n" "pending (rd b) = bs @ concat cs" by blast
    from r big True assms(1) have "bufio_Read n b = ((bs, None),
        b\<lparr>rd := (rd b)\<lparr>chunks := cs, io_log := io_log (rd b) @ [deadline (rd b)]\<rparr>\<rparr>)"
      by (simp add: bufio_Read_def)
    then show ?thesis using True bs reads_only_step[of "rd b" cs]
      by (intro exI[of _ bs]
            exI[of _ "b\<lparr>rd := (rd b)\<lparr>chunks := cs, io_log := io_log (rd b) @ [deadline (rd b)]\<rparr>\<rparr>"])
         (simp add: bufio_pending_def pending_def)
  next
    case small: False
    from bufio_fill_data[OF True ne] obtain b1 where
      f: "bufio_fill b = (None, b1)" and b1: "bbuf b1 \<noteq> []" "bufio_pending b1 = bufio_pending b"
        "reads_only (rd b) (rd b1)" by blast
    from f small True assms(1) b1(1)
    have "bufio_Read n b = ((take n (bbuf b1), None), b1\<lparr>bbuf := drop n (bbuf b1)\<rparr>)"
      by (simp add: bufio_Read_def)
    moreover have "take n (bbuf b1) \<noteq> []" using b1(1) assms(1) by simp
    moreover have "bufio_pending b = take n (bbuf b1) @ bufio_pending (b1\<lparr>bbuf := drop n (bbuf b1)\<rparr>)"
    proof -
      have "bufio_pending b1 = (take n (bbuf b1) @ drop n (bbuf b1)) @ pending (rd b1)"
        by (simp only: append_take_drop_id bufio_pending_def)
      then show ?thesis unfolding b1(2) by (simp add: bufio_pending_def)
    qed
    ultimately show ?thesis using b1(3)
      by (intro exI[of _ "take n (bbuf b1)"] exI[of _ "b1\<lparr>bbuf := drop n (bbuf b1)\<rparr>"]) simp
  qed
qed

lemma bufio_ReadAtLeast_ok:
  "m - length got \<le> length (bufio_pending b) \<Longrightarrow>
     \<exists>b'. bufio_ReadAtLeast b m got =
             ((got @ take (m - length got) (bufio_pending b), None), b') \<and>
           bufio_pending b' = drop (m - length got) (bufio_pending b) \<and>
           reads_only (rd b) (rd b')"
proof (induction b m got rule: bufio_ReadAtLeast.induct)
  case (1 b m got)
  show ?case
  proof (cases "length got < m")
    case False
    then have "bufio_ReadAtLeast b m got = ((got, None), b)"
      by (simp add: bufio_ReadAtLeast.simps ReadAtLeast_result_def)
    with False show ?thesis by (simp add: reads_only_refl)
  next
    case True
    then have pos: "0 < m - length got" by simp
    with "1.prems" have ne: "bufio_pending b \<noteq> []" by auto
    from bufio_Read_data[OF pos ne] obtain bs b1 where
      r: "bufio_Read (m - length got) b = ((bs, None), b1)"
      and bs: "bs \<noteq> []" "length bs \<le> m - length got" "bufio_pending b = bs @ bufio_pending b1"
        "reads_only (rd b) (rd b1)" by blast
    have prem: "m - length (got @ bs) \<le> length (bufio_pending b1)"
      using "1.prems" bs by simp
    from "1.IH"[OF True r[symmetric] refl refl prem] obtain b' where
      ih: "bufio_ReadAtLeast b1 m (got @ bs) =
             (((got @ bs) @ take (m - length (got @ bs)) (bufio_pending b1), None), b')"
      and rest: "bufio_pending b' = drop (m - length (got @ bs)) (bufio_pending b1)"
      and ro: "reads_only (rd b1) (rd b')" by blast
    have unf: "bufio_ReadAtLeast b m got = bufio_ReadAtLeast b1 m (got @ bs)"
      using True r by (subst bufio_ReadAtLeast.simps) simp
    have t: "bs @ take (m - length (got @ bs)) (bufio_pending b1) = take (m - length got) (bufio_pending b)"
      using bs by (simp add: diff_diff_eq)
    have d: "drop (m - length (got @ bs)) (bufio_pending b1) = drop (m - length got) (bufio_pending b)"
      using bs by (simp add: diff_diff_eq)
    from unf ih rest t d reads_only_trans[OF bs(4) ro] show ?thesis by simp
  qed
qed

lemma bufio_ReadAtLeast_short:
  "length got + length (bufio_pending b) < m \<Longrightarrow>
     \<exists>b'. bufio_ReadAtLeast b m got =
       ((got @ bufio_pending b,
         Some (if got @ bufio_pending b \<noteq> [] \<and> final_err (rd b) = EOF then ErrUnexpectedEOF
               else final_err (rd b))), b') \<and>
       bufio_pending b' = [] \<and> reads_only (rd b) (rd b')"
proof (induction b m got rule: bufio_ReadAtLeast.induct)
  case (1 b m got)
  from "1.prems" have lt: "length got < m" and pos: "0 < m - length got" by simp_all
  show ?case
  proof (cases "bufio_pending b = []")
    case True
    from bufio_Read_empty[OF pos True] obtain b1 where
      r: "bufio_Read (m - length got) b = (([], Some (final_err (rd b))), b1)"
      and b1: "bufio_pending b1 = []" "reads_only (rd b) (rd b1)" by blast
    from r lt "1.prems" True
    have "bufio_ReadAtLeast b m got =
       ((got @ bufio_pending b,
         Some (if got @ bufio_pending b \<noteq> [] \<and> final_err (rd b) = EOF then ErrUnexpectedEOF
               else final_err (rd b))), b1)"
      by (subst bufio_ReadAtLeast.simps) (simp add: ReadAtLeast_result_def)
    with b1 show ?thesis by simp
  next
    case False
    from bufio_Read_data[OF pos False] obtain bs b1 where
      r: "bufio_Read (m - length got) b = ((bs, None), b1)"
      and bs: "bs \<noteq> []" "length bs \<le> m - length got" "bufio_pending b = bs @ bufio_pending b1"
        "reads_only (rd b) (rd b1)" by blast
    have prem: "length (got @ bs) + length (bufio_pending b1) < m"
      using "1.prems" bs by simp
    have unf: "bufio_ReadAtLeast b m got = bufio_ReadAtLeast b1 m (got @ bs)"
      using lt r by (subst bufio_ReadAtLeast.simps) simp
    from "1.IH"[OF lt r[symmetric] refl refl prem] obtain b' where
      ih: "bufio_ReadAtLeast b1 m (got @ bs) =
        (((got @ bs) @ bufio_pending b1,
          Some (if (got @ bs) @ bufio_pending b1 \<noteq> [] \<and> final_err (rd b1) = EOF then ErrUnexpectedEOF
                else final_err (rd b1))), b')"
      and b': "bufio_pending b' = []" "reads_only (rd b1) (rd b')" by blast
    have fe: "final_err (rd b1) = final_err (rd b)"
      using reads_only_fields[OF bs(4)] by simp
    from unf ih b' bs fe reads_only_trans[OF bs(4) b'(2)] show ?thesis by simp
  qed
qed

text \<open>Every outcome of \<open>bufio_ReadFull\<close>, in one statement.\<close>

lemma bufio_ReadFull_cases:
  "\<exists>b'. bufio_ReadFull b n =
       (if n \<le> length (bufio_pending b) then (take n (bufio_pending b), None)
        else (bufio_pending b @ replicate (n - length (bufio_pending b)) 0,
              Some (if bufio_pending b \<noteq> [] \<and> final_err (rd b) = EOF then ErrUnexpectedEOF
                    else final_err (rd b))), b') \<and>
     bufio_pending b' = drop n (bufio_pending b) \<and> reads_only (rd b) (rd b')"
proof (cases "n \<le> length (bufio_pending b)")
  case True
  from bufio_ReadAtLeast_ok[of n "[]" b] True obtain b' where
    "bufio_ReadAtLeast b n [] = ((take n (bufio_pending b), None), b')"
    "bufio_pending b' = drop n (bufio_pending b)" "reads_only (rd b) (rd b')" by auto
  with True show ?thesis by (intro exI[of _ b']) (simp add: bufio_ReadFull_def)
next
  case False
  then have "length [] + length (bufio_pending b) < n" by simp
  from bufio_ReadAtLeast_short[OF this] obtain b' where
    "bufio_ReadAtLeast b n [] =
       ((bufio_pending b,
         Some (if bufio_pending b \<noteq> [] \<and> final_err (rd b) = EOF then ErrUnexpectedEOF
               else final_err (rd b))), b')"
    "bufio_pending b' = []" "reads_only (rd b) (rd b')" by auto
  with False show ?thesis by (intro exI[of _ b']) (simp add: bufio_ReadFull_def)
qed

lemma bufio_ReadFull_ok:
  assumes "bufio_pending b = bs @ rest" and "length bs = n"
  shows "\<exists>b'. bufio_ReadFull b n = ((bs, None), b') \<and> bufio_pending b' = rest \<and>
           reads_only (rd b) (rd b')"
  using bufio_ReadFull_cases[of b n] assms by auto

lemma bufio_ReadFull_reads:
  "bufio_ReadFull b n = (res, b') \<Longrightarrow> reads_only (rd b) (rd b')"
  using bufio_ReadFull_cases[of b n] by auto

section \<open>Properties of the handshake\<close>

lemma u1: "unat (ucast (v::byte) :: 32 word) = unat v"
proof -
  have "unat v < 256" using unsigned_less[of v, where 'a=nat] by simp
  then have "unat v < 2 ^ 32" by simp
  then have "take_bit 32 (unat v) = unat v" by (rule take_bit_nat_eq_self)
  then show ?thesis by (simp add: unsigned_ucast_eq)
qed

lemma u3: "unat (w::32 word) < 2 ^ 31 \<Longrightarrow> drop_bit 31 w = 0"
proof -
  assume a: "unat w < 2 ^ 31"
  have "unat (drop_bit 31 w) = drop_bit 31 (unat w)" by (rule unat_drop_bit_eq)
  also have "\<dots> = unat w div 2 ^ 31" by (rule drop_bit_eq_div)
  also have "\<dots> = 0" using a by simp
  finally show ?thesis by (simp add: unsigned_eq_0_iff)
qed


lemma word_or_eq_0: "(a::byte) OR b = 0 \<longleftrightarrow> a = 0 \<and> b = 0"
  by (rule or_eq_0_iff)

lemma word_xor_eq_0: "(a::byte) XOR b = 0 \<longleftrightarrow> a = b"
  by (auto simp: bit_eq_iff bit_simps)

lemma ConstantTimeByteEq_0: "ConstantTimeByteEq v 0 = (if v = 0 then 1 else 0)"
proof (cases "v = 0")
  case True
  then show ?thesis by (simp add: ConstantTimeByteEq_def)
next
  case False
  then have pos: "0 < unat v" by (simp add: unat_gt_0)
  have lt: "unat v < 256" using unsigned_less[of v, where 'a=nat] by simp
  from pos have "0 < unat (ucast v :: 32 word)" by (simp add: u1)
  then have "unat ((ucast v :: 32 word) - 1) = unat (ucast v :: 32 word) - 1"
    by (metis unat_gt_0 unat_minus_one)
  then have "unat ((ucast v :: 32 word) - 1) < 2 ^ 31" using lt by (simp add: u1)
  then have "drop_bit 31 ((ucast v :: 32 word) - 1) = 0" by (rule u3)
  with False show ?thesis by (simp add: ConstantTimeByteEq_def)
qed

lemma ConstantTimeCompare_loop_0:
  "length x = length y \<Longrightarrow> ConstantTimeCompare_loop v x y = 0 \<longleftrightarrow> v = 0 \<and> x = y"
proof (induction x y arbitrary: v rule: list_induct2)
  case Nil
  show ?case by simp
next
  case (Cons a x b y)
  show ?case by (simp add: Cons.IH word_or_eq_0 word_xor_eq_0)
qed

text \<open>\<^verbatim>\<open>ConstantTimeCompare\<close> is 1 for equal slices and for no others.\<close>

lemma ConstantTimeCompare_eq: "ConstantTimeCompare x y = 1 \<longleftrightarrow> x = y"
proof (cases "length x = length y")
  case True
  from ConstantTimeCompare_loop_0[OF True, of 0] True show ?thesis
    by (simp add: ConstantTimeCompare_def ConstantTimeByteEq_0)
next
  case False
  then show ?thesis by (auto simp: ConstantTimeCompare_def)
qed


text \<open>The loop over the auth types: a zero byte in time, and 256 bytes without one.\<close>

lemma readAuthTypes_loop_zero:
  "bufio_pending r = types @ 0 # rest \<Longrightarrow> 0 \<notin> set types \<Longrightarrow>
   count + length types < 256 \<Longrightarrow>
     \<exists>r'. readAuthTypes_loop count authTypes r =
            (Inr (count + length types, \<lambda>b. authTypes b \<or> b \<in> set types), r') \<and>
          bufio_pending r' = rest \<and> reads_only (rd r) (rd r')"
proof (induction types arbitrary: count authTypes r)
  case Nil
  from bufio_ReadByte_data[of r 0 rest] Nil.prems obtain r1 where
    "bufio_ReadByte r = (Inr 0, r1)" "bufio_pending r1 = rest" "reads_only (rd r) (rd r1)"
    by auto
  with Nil.prems show ?case by (subst readAuthTypes_loop.simps) simp
next
  case (Cons t ts)
  from Cons.prems have t: "t \<noteq> 0" and lt: "count < 256" by auto
  from bufio_ReadByte_data[of r t "ts @ 0 # rest"] Cons.prems obtain r1 where
    rb: "bufio_ReadByte r = (Inr t, r1)" and r1: "bufio_pending r1 = ts @ 0 # rest"
      "reads_only (rd r) (rd r1)" by auto
  from Cons.prems have "0 \<notin> set ts" "(count + 1) + length ts < 256" by auto
  from Cons.IH[OF r1(1) this, of "authTypes(t := True)"] obtain r' where
    ih: "readAuthTypes_loop (count + 1) (authTypes(t := True)) r1 =
           (Inr (count + 1 + length ts, \<lambda>b. (authTypes(t := True)) b \<or> b \<in> set ts), r')"
    and r': "bufio_pending r' = rest" "reads_only (rd r1) (rd r')" by blast
  have f: "(\<lambda>b. (authTypes(t := True)) b \<or> b \<in> set ts) = (\<lambda>b. authTypes b \<or> b \<in> set (t # ts))"
    by auto
  have "readAuthTypes_loop count authTypes r =
          readAuthTypes_loop (count + 1) (authTypes(t := True)) r1"
    using lt rb t by (subst readAuthTypes_loop.simps) simp
  with ih f r' reads_only_trans[OF r1(2) r'(2)] show ?case by simp
qed


lemma readAuthTypes_loop_reads:
  "readAuthTypes_loop count authTypes r = (res, r') \<Longrightarrow> reads_only (rd r) (rd r')"
proof (induction count authTypes r arbitrary: res r' rule: readAuthTypes_loop.induct)
  case (1 count authTypes r)
  show ?case
  proof (cases "count < 256")
    case False
    with "1.prems" have "r' = r" by (subst (asm) readAuthTypes_loop.simps) simp
    then show ?thesis by (simp add: reads_only_refl)
  next
    case True
    obtain x r1 where rb: "bufio_ReadByte r = (x, r1)" by (metis surj_pair)
    note ro = bufio_ReadByte_reads[OF rb]
    show ?thesis
    proof (cases x)
      case (Inl err)
      with "1.prems" True rb have "r' = r1" by (subst (asm) readAuthTypes_loop.simps) simp
      with ro show ?thesis by simp
    next
      case (Inr b)
      show ?thesis
      proof (cases "b = 0")
        case z: True
        with "1.prems" True rb Inr have "r' = r1"
          by (subst (asm) readAuthTypes_loop.simps) simp
        with ro show ?thesis by simp
      next
        case nz: False
        with "1.prems" True rb Inr
        have "readAuthTypes_loop (count + 1) (authTypes(b := True)) r1 = (res, r')"
          by (subst (asm) readAuthTypes_loop.simps) simp
        from "1.IH"[OF True rb[symmetric] Inr nz this] ro show ?thesis
          by (rule reads_only_trans[rotated])
      qed
    qed
  qed
qed


lemma bufio_NewReader_simps:
  "rd (bufio_NewReader s) = s" "bufio_pending (bufio_NewReader s) = pending s"
  by (simp_all add: bufio_NewReader_def bufio_pending_def)










lemma reads_only_can_write: "reads_only s s' \<Longrightarrow> can_write s' n = can_write s n"
  using reads_only_fields[of s s'] by (simp add: can_write_def)

lemma reads_only_pending_rd:
  "bufio_pending (r\<lparr>rd := s'\<rparr>) = bbuf r @ pending s'"
  by (simp add: bufio_pending_def)

text \<open>A write on the connection under a buffered reader.\<close>

lemma bufio_write_step:
  assumes "can_write (rd r) (length bs + n)"
  shows "\<exists>s'. conn_Write bs (rd r) = (None, s') \<and> written s' = written (rd r) @ bs \<and>
           can_write s' n \<and> bufio_pending (r\<lparr>rd := s'\<rparr>) = bufio_pending r \<and>
           io_only (rd r) s' \<and> final_err s' = final_err (rd r)"
proof -
  from assms have cw: "can_write (rd r) (length bs)"
    by (auto simp: can_write_def split: option.splits)
  let ?s' = "(rd r)\<lparr>written := written (rd r) @ bs,
                wr_room := map_option (\<lambda>k. k - length bs) (wr_room (rd r)),
                io_log := io_log (rd r) @ [deadline (rd r)]\<rparr>"
  have w: "conn_Write bs (rd r) = (None, ?s')" by (rule conn_Write_ok[OF cw])
  have "can_write ?s' n" using assms by (auto simp: can_write_def split: option.splits)
  moreover from conn_Write_io[OF w] have "io_only (rd r) ?s'" by simp
  ultimately show ?thesis using w
    by (intro exI[of _ ?s']) (simp add: bufio_pending_def pending_def)
qed

lemma computeServerHash_eq:
  "computeServerHash H info cn sn =
     H (AuthCookie info) (bytes_of ''ExtORPort authentication server-to-client hash'' @ cn @ sn)"
  by (simp add: computeServerHash_def hmac_New_def hash_Write_def hash_Sum_def Let_def)

lemma computeClientHash_eq:
  "computeClientHash H info cn sn =
     H (AuthCookie info) (bytes_of ''ExtORPort authentication client-to-server hash'' @ cn @ sn)"
  by (simp add: computeClientHash_def hmac_New_def hash_Write_def hash_Sum_def Let_def)

text \<open>
  A run of the handshake with a peer that offers type 1 and sends a hash and a nonce: what
  happens on a wrong hash, and what on the right one.
\<close>

lemma extOrPortAuthenticate_run:
  assumes p: "pending s = types @ 0 # sh @ sn @ rest" and z: "0 \<notin> set types"
    and one: "1 \<in> set types" and lt: "length types < 256"
    and lsh: "length sh = 32" and lsn: "length sn = 32"
    and rn: "pending rnd = cn @ rrest" and lcn: "length cn = 32"
    and cw: "can_write s 33"
  shows "(sh \<noteq> computeServerHash H info cn sn \<longrightarrow>
            (\<exists>s' rnd'. extOrPortAuthenticate H rnd s info =
                 (Some (ErrorString ''mismatch in server hash''), s', rnd') \<and>
               written s' = written s @ [1] @ cn \<and> io_only s s')) \<and>
         (sh = computeServerHash H info cn sn \<and>
          can_write s (33 + length (computeClientHash H info cn sn)) \<longrightarrow>
            (\<exists>e s' rnd'. extOrPortAuthenticate H rnd s info = (e, s', rnd') \<and>
               written s' = written s @ [1] @ cn @ computeClientHash H info cn sn \<and>
               io_only s s' \<and>
               (rest = [] \<longrightarrow> e = Some (final_err s)) \<and>
               (rest \<noteq> [] \<and> hd rest \<noteq> 1 \<longrightarrow> e = Some (ErrorString ''server rejected authentication'')) \<and>
               (rest = [1] \<longrightarrow> e = None \<and> pending s' = [])))"
proof -
  let ?ch = "computeClientHash H info cn sn"
  from readAuthTypes_loop_zero[of "bufio_NewReader s" types "sh @ sn @ rest" 0 "\<lambda>_. False"] p z lt
  obtain r1 where
    l: "readAuthTypes_loop 0 (\<lambda>_. False) (bufio_NewReader s) =
          (Inr (length types, \<lambda>b. b \<in> set types), r1)"
    and r1: "bufio_pending r1 = sh @ sn @ rest" "reads_only s (rd r1)"
    by (auto simp: bufio_NewReader_simps)
  note f1 = reads_only_fields[OF r1(2)]
  text \<open>the selection byte\<close>
  have "can_write (rd r1) (length [1::byte] + 32)"
    using cw reads_only_can_write[OF r1(2)] by simp
  from bufio_write_step[OF this] obtain s2 where
    w1: "conn_Write [1] (rd r1) = (None, s2)"
    and s2: "written s2 = written (rd r1) @ [1]" "can_write s2 32"
      "bufio_pending (r1\<lparr>rd := s2\<rparr>) = bufio_pending r1" "io_only (rd r1) s2"
      "final_err s2 = final_err (rd r1)"
    by blast
  let ?r2 = "r1\<lparr>rd := s2\<rparr>"
  text \<open>the client nonce\<close>
  from rn lcn have "32 \<le> length (pending rnd)" by simp
  from src_ReadFull_ok[OF this] rn lcn obtain rnd' where
    rr: "src_ReadFull rnd 32 = ((cn, None), rnd')" by auto
  have "can_write (rd ?r2) (length cn + 0)" using s2(2) lcn by simp
  from bufio_write_step[OF this] obtain s3 where
    w2: "conn_Write cn (rd ?r2) = (None, s3)"
    and s3: "written s3 = written (rd ?r2) @ cn"
      "bufio_pending (?r2\<lparr>rd := s3\<rparr>) = bufio_pending ?r2" "io_only (rd ?r2) s3"
      "final_err s3 = final_err (rd ?r2)"
    by blast
  let ?r3 = "?r2\<lparr>rd := s3\<rparr>"
  have w2': "conn_Write cn s2 = (None, s3)" using w2 by simp
  have r3eq: "?r3 = r1\<lparr>rd := s3\<rparr>" by simp
  have p3: "bufio_pending (r1\<lparr>rd := s3\<rparr>) = sh @ sn @ rest"
    using s3(2) s2(3) r1(1) by simp
  text \<open>the server's hash and nonce\<close>
  from bufio_ReadFull_ok[OF p3 lsh] obtain r4 where
    g1: "bufio_ReadFull (r1\<lparr>rd := s3\<rparr>) 32 = ((sh, None), r4)"
    and r4: "bufio_pending r4 = sn @ rest" "reads_only s3 (rd r4)"
    by auto
  from bufio_ReadFull_ok[OF r4(1) lsn] obtain r5 where
    g2: "bufio_ReadFull r4 32 = ((sn, None), r5)"
    and r5: "bufio_pending r5 = rest" "reads_only (rd r4) (rd r5)"
    by auto
  have ro35: "reads_only s3 (rd r5)" using r4(2) r5(2) by (rule reads_only_trans)
  note f5 = reads_only_fields[OF ro35]
  have io3: "io_only s s3"
    using f1 s2(4) s3(3) by (auto intro: io_only_trans)
  have io5: "io_only s (rd r5)" using io3 f5 by (auto intro: io_only_trans)
  have wr5: "written (rd r5) = written s @ [1] @ cn"
    using f5 s3(1) s2(1) f1 by simp
  have fe5: "final_err (rd r5) = final_err s" using f5 s3(4) s2(5) f1 by simp
  note unf = extOrPortAuthenticate_def Let_def l w1 rr w2' g1 g2 ConstantTimeCompare_eq
  have t1: "(\<lambda>b. b \<in> set types) 1" using one by simp
  show ?thesis
  proof (intro conjI impI)
    assume ne: "sh \<noteq> computeServerHash H info cn sn"
    have "extOrPortAuthenticate H rnd s info =
            (Some (ErrorString ''mismatch in server hash''), rd r5, rnd')"
      using lt one ne by (simp add: unf)
    with wr5 io5
    show "\<exists>s' rnd'. extOrPortAuthenticate H rnd s info =
                 (Some (ErrorString ''mismatch in server hash''), s', rnd') \<and>
               written s' = written s @ [1] @ cn \<and> io_only s s'" by simp
  next
    assume a: "sh = computeServerHash H info cn sn \<and>
          can_write s (33 + length (computeClientHash H info cn sn))"
    then have eq: "sh = computeServerHash H info cn sn" by simp
    have "can_write (rd r1) (33 + length ?ch)"
      using a reads_only_can_write[OF r1(2)] by simp
    then have "can_write s2 (32 + length ?ch)"
      using w1 by (auto simp: conn_Write_def can_write_def Let_def split: option.splits if_splits)
    then have "can_write s3 (length ?ch)"
      using w2' lcn by (auto simp: conn_Write_def can_write_def Let_def split: option.splits if_splits)
    then have "can_write (rd r5) (length ?ch + 0)"
      using reads_only_can_write[OF ro35] by simp
    from bufio_write_step[OF this] obtain s6 where
      w3: "conn_Write ?ch (rd r5) = (None, s6)"
      and s6: "written s6 = written (rd r5) @ ?ch"
        "bufio_pending (r5\<lparr>rd := s6\<rparr>) = bufio_pending r5" "io_only (rd r5) s6"
        "final_err s6 = final_err (rd r5)"
      by blast
    let ?r6 = "r5\<lparr>rd := s6\<rparr>"
    from bufio_ReadFull_cases[of ?r6 1] obtain r7 where
      g3: "bufio_ReadFull ?r6 1 =
       (if 1 \<le> length (bufio_pending ?r6) then (take 1 (bufio_pending ?r6), None)
        else (bufio_pending ?r6 @ replicate (1 - length (bufio_pending ?r6)) 0,
              Some (if bufio_pending ?r6 \<noteq> [] \<and> final_err (rd ?r6) = EOF then ErrUnexpectedEOF
                    else final_err (rd ?r6))), r7)"
      and r7: "bufio_pending r7 = drop 1 (bufio_pending ?r6)" "reads_only (rd ?r6) (rd r7)"
      by blast
    note f7 = reads_only_fields[OF r7(2)]
    have p6: "bufio_pending ?r6 = rest" using s6(2) r5(1) by simp
    have wr7: "written (rd r7) = written s @ [1] @ cn @ ?ch"
      using f7 s6(1) wr5 by simp
    have io7: "io_only s (rd r7)"
      using io5 s6(3) f7 by (auto intro: io_only_trans)
    have "\<exists>e. extOrPortAuthenticate H rnd s info = (e, rd r7, rnd')"
      using lt one eq w3 g3 by (simp add: unf)
    then obtain e where e: "extOrPortAuthenticate H rnd s info = (e, rd r7, rnd')" by blast
    have c1: "rest = [] \<longrightarrow> e = Some (final_err s)"
      using e lt one eq w3 g3 p6 s6(4) fe5 by (auto simp: unf)
    have c2: "rest \<noteq> [] \<and> hd rest \<noteq> 1 \<longrightarrow> e = Some (ErrorString ''server rejected authentication'')"
      using e lt one eq w3 g3 p6 by (cases rest) (auto simp: unf)
    have c3: "rest = [1] \<longrightarrow> e = None \<and> pending (rd r7) = []"
    proof
      assume r: "rest = [1]"
      with r7(1) p6 have "bufio_pending r7 = []" by simp
      then have "bbuf r7 = []" "pending (rd r7) = []" by (simp_all add: bufio_pending_def)
      then show "e = None \<and> pending (rd r7) = []"
        using e lt one eq w3 g3 p6 r by (auto simp: unf bufio_Buffered_def)
    qed
    from e wr7 io7 c1 c2 c3
    show "\<exists>e s' rnd'. extOrPortAuthenticate H rnd s info = (e, s', rnd') \<and>
               written s' = written s @ [1] @ cn @ computeClientHash H info cn sn \<and>
               io_only s s' \<and>
               (rest = [] \<longrightarrow> e = Some (final_err s)) \<and>
               (rest \<noteq> [] \<and> hd rest \<noteq> 1 \<longrightarrow> e = Some (ErrorString ''server rejected authentication'')) \<and>
               (rest = [1] \<longrightarrow> e = None \<and> pending s' = [])"
      by blast
  qed
qed


text \<open>
  C1. In the handshake's server-verification step the expected server hash is the HMAC,
  keyed with the cookie, of the literal "ExtORPort authentication server-to-client hash"
  followed by the client nonce and the server nonce; the comparison with the 32 received
  bytes is \<open>ConstantTimeCompare\<close>, which answers 1 for equal slices only. On a mismatch the
  handshake returns the mismatch error and the connection holds the selection byte and the
  client nonce and nothing after them; on a match the client hash is written next.
\<close>

theorem server_hash_verification:
  assumes "pending s = types @ 0 # sh @ sn @ rest" and "0 \<notin> set types"
    and "1 \<in> set types" and "length types < 256"
    and "length sh = 32" and "length sn = 32"
    and "pending rnd = cn @ rrest" and "length cn = 32"
    and "can_write s 33"
  shows "computeServerHash H info cn sn =
           H (AuthCookie info) (bytes_of ''ExtORPort authentication server-to-client hash'' @ cn @ sn) \<and>
         (ConstantTimeCompare sh (computeServerHash H info cn sn) = 1 \<longleftrightarrow>
            sh = computeServerHash H info cn sn) \<and>
         (sh \<noteq> computeServerHash H info cn sn \<longrightarrow>
            (\<exists>s' rnd'. extOrPortAuthenticate H rnd s info =
                 (Some (ErrorString ''mismatch in server hash''), s', rnd') \<and>
               written s' = written s @ [1] @ cn)) \<and>
         (sh = computeServerHash H info cn sn \<and>
          can_write s (33 + length (computeClientHash H info cn sn)) \<longrightarrow>
            (\<exists>e s' rnd'. extOrPortAuthenticate H rnd s info = (e, s', rnd') \<and>
               written s' = written s @ [1] @ cn @ computeClientHash H info cn sn))"
proof -
  note run = extOrPortAuthenticate_run[OF assms, of H info]
  from run[THEN conjunct1]
  have m: "sh \<noteq> computeServerHash H info cn sn \<longrightarrow>
            (\<exists>s' rnd'. extOrPortAuthenticate H rnd s info =
                 (Some (ErrorString ''mismatch in server hash''), s', rnd') \<and>
               written s' = written s @ [1] @ cn)" by blast
  from run[THEN conjunct2]
  have k: "sh = computeServerHash H info cn sn \<and>
          can_write s (33 + length (computeClientHash H info cn sn)) \<longrightarrow>
            (\<exists>e s' rnd'. extOrPortAuthenticate H rnd s info = (e, s', rnd') \<and>
               written s' = written s @ [1] @ cn @ computeClientHash H info cn sn)" by blast
  from m k show ?thesis
    by (simp only: computeServerHash_eq ConstantTimeCompare_eq simp_thms)
qed

theorem server_hash_verification_witness:
  "(\<exists>s' rnd'. extOrPortAuthenticate (\<lambda>k m. k) \<lparr>chunks = [replicate 32 5, [4]], final_err = EOF\<rparr>
        (new_conn [[2, 1, 0], replicate 32 8, replicate 32 9, [1]] EOF)
        \<lparr>BindAddrs = [], OrAddr = None, ExtendedOrAddr = None, AuthCookie = replicate 32 7\<rparr> =
      (Some (ErrorString ''mismatch in server hash''), s', rnd') \<and>
      written s' = 1 # replicate 32 5) \<and>
   (\<exists>e s' rnd'. extOrPortAuthenticate (\<lambda>k m. k) \<lparr>chunks = [replicate 32 5, [4]], final_err = EOF\<rparr>
        (new_conn [[2, 1, 0], replicate 32 7, replicate 32 9, [1]] EOF)
        \<lparr>BindAddrs = [], OrAddr = None, ExtendedOrAddr = None, AuthCookie = replicate 32 7\<rparr> =
      (e, s', rnd') \<and>
      written s' = 1 # replicate 32 5 @ replicate 32 7)"
proof -
  let ?rnd = "\<lparr>chunks = [replicate 32 5, [4 :: byte]], final_err = EOF\<rparr>"
  let ?info = "\<lparr>BindAddrs = [], OrAddr = None, ExtendedOrAddr = None, AuthCookie = replicate 32 7\<rparr>"
  let ?bad = "new_conn [[2, 1, 0], replicate 32 8, replicate 32 9, [1]] EOF"
  let ?good = "new_conn [[2, 1, 0], replicate 32 7, replicate 32 9, [1]] EOF"
  have h: "computeServerHash (\<lambda>k m. k) ?info (replicate 32 5) (replicate 32 9) = replicate 32 7"
    "computeClientHash (\<lambda>k m. k) ?info (replicate 32 5) (replicate 32 9) = replicate 32 7"
    by (simp_all add: computeServerHash_def computeClientHash_def hmac_New_def hash_Write_def
        hash_Sum_def Let_def)
  have pb: "pending ?bad = [2, 1] @ 0 # replicate 32 8 @ replicate 32 9 @ [1]"
    and pg: "pending ?good = [2, 1] @ 0 # replicate 32 7 @ replicate 32 9 @ [1]"
    and pr: "pending ?rnd = replicate 32 5 @ [4]"
    by (simp_all add: pending_def new_conn_def)
  have c: "can_write ?bad 33" "can_write ?good 33" "can_write ?good (33 + length (replicate 32 (7::byte)))"
    by (simp_all add: can_write_def new_conn_def)
  have t: "0 \<notin> set [2, 1 :: byte]" "1 \<in> set [2, 1 :: byte]" "length [2, 1 :: byte] < 256"
    "length (replicate 32 (8::byte)) = 32" "length (replicate 32 (7::byte)) = 32"
    "length (replicate 32 (9::byte)) = 32" "length (replicate 32 (5::byte)) = 32" by simp_all
  from server_hash_verification[OF pb t(1,2,3,4,6) pr t(7) c(1), of "\<lambda>k m. k" ?info]
  have b: "\<exists>s' rnd'. extOrPortAuthenticate (\<lambda>k m. k) ?rnd ?bad ?info =
      (Some (ErrorString ''mismatch in server hash''), s', rnd') \<and>
      written s' = 1 # replicate 32 5"
    unfolding h by (simp add: new_conn_def)
  from server_hash_verification[OF pg t(1,2,3,5,6) pr t(7) c(2), of "\<lambda>k m. k" ?info] c(3)
  have g: "\<exists>e s' rnd'. extOrPortAuthenticate (\<lambda>k m. k) ?rnd ?good ?info = (e, s', rnd') \<and>
      written s' = 1 # replicate 32 5 @ replicate 32 7"
    unfolding h by (simp add: new_conn_def)
  from b g show ?thesis by blast
qed

end
